theory Spec2Isabelle
  imports Main "HOL-Library.Sublist" "HOL-Library.Multiset"
begin

section \<open>Data model\<close>

text \<open>
  The module \<^verbatim>\<open>qax/utils.py\<close> works on JAX pytrees whose leaves are arrays or instances of
  \<^verbatim>\<open>implicit_array.ImplicitArray\<close>. An abstract value carries the two fields the module
  reads, \<^verbatim>\<open>shape\<close> and \<^verbatim>\<open>dtype\<close>.
\<close>

datatype aval = ShapedArray (shape: "nat list") (dtype: string)

text \<open>The containers of a pytree: the kind of a node and, for a dict, its keys.\<close>

datatype container = PyList | PyTuple | PyDict "string list"

text \<open>
  Modelled from the spec: the class \<^verbatim>\<open>ImplicitArray\<close> of the module
  \<^verbatim>\<open>implicit_array\<close>, which \<^verbatim>\<open>utils.py\<close> imports and which is not among the sources. It is a
  pytree node of its own (the spec's VirtualNode): it declares its metadata, flattens to an
  ordered sequence of child pytrees plus static data, and has a one-step materialization
  \<^verbatim>\<open>_materialize\<close>. Here \<open>ImplicitArray a m cs\<close> has static data \<open>a\<close>, declared metadata \<open>m\<close>
  and children \<open>cs\<close>; the materialization step is a function on trees that is supplied
  where a transform is applied. \<open>Arr m v\<close> is a concrete leaf with metadata \<open>m\<close> and value
  \<open>v\<close>.
\<close>

datatype tree =
    Arr aval nat
  | ImplicitArray nat aval "tree list"
  | Node container "tree list"

text \<open>
  The structure descriptor (\<^verbatim>\<open>PyTreeDef\<close>): a star for a leaf, and the node data
  otherwise. The descriptor of an implicit array node holds what \<^verbatim>\<open>tree_unflatten\<close> rebuilds
  the node from besides its children: its static data and its declared metadata.
\<close>

datatype treedef =
    LeafDef
  | ImplicitDef nat aval "treedef list"
  | NodeDef container "treedef list"

type_synonym path = "nat list"

datatype error =
    ValueError_axis int nat
  | ValueError_structure
  | ValueError_avals aval nat aval
  | ValueError_vmap
  | IndexError

text \<open>\<^verbatim>\<open>isinstance(x, implicit_array.ImplicitArray)\<close>\<close>

fun is_implicit :: "tree \<Rightarrow> bool" where
  "is_implicit (ImplicitArray a m cs) = True"
| "is_implicit (Arr m v) = False"
| "is_implicit (Node k cs) = False"

text \<open>
  \<^verbatim>\<open>core.get_aval\<close>: the metadata of an array, the declared metadata of an implicit array.
  It is not defined on a container (JAX raises there); the module applies it to flattened
  leaves only.
\<close>

fun get_aval :: "tree \<Rightarrow> aval" where
  "get_aval (Arr m v) = m"
| "get_aval (ImplicitArray a m cs) = m"

section \<open>The tree library, with a leaf predicate\<close>

text \<open>
  \<^verbatim>\<open>tree_util.tree_leaves\<close>, \<^verbatim>\<open>tree_structure\<close>, \<^verbatim>\<open>tree_map\<close> and \<^verbatim>\<open>tree_flatten\<close> with the
  argument \<^verbatim>\<open>is_leaf\<close>: the predicate is asked at every node, the root included, and a node
  it accepts is a leaf.
\<close>

fun tree_leaves :: "(tree \<Rightarrow> bool) \<Rightarrow> tree \<Rightarrow> tree list" where
  "tree_leaves is_leaf (Arr m v) = [Arr m v]"
| "tree_leaves is_leaf (ImplicitArray a m cs) =
     (if is_leaf (ImplicitArray a m cs) then [ImplicitArray a m cs]
      else concat (map (tree_leaves is_leaf) cs))"
| "tree_leaves is_leaf (Node k cs) =
     (if is_leaf (Node k cs) then [Node k cs]
      else concat (map (tree_leaves is_leaf) cs))"

fun tree_structure :: "(tree \<Rightarrow> bool) \<Rightarrow> tree \<Rightarrow> treedef" where
  "tree_structure is_leaf (Arr m v) = LeafDef"
| "tree_structure is_leaf (ImplicitArray a m cs) =
     (if is_leaf (ImplicitArray a m cs) then LeafDef
      else ImplicitDef a m (map (tree_structure is_leaf) cs))"
| "tree_structure is_leaf (Node k cs) =
     (if is_leaf (Node k cs) then LeafDef
      else NodeDef k (map (tree_structure is_leaf) cs))"

fun tree_map :: "(tree \<Rightarrow> tree) \<Rightarrow> (tree \<Rightarrow> bool) \<Rightarrow> tree \<Rightarrow> tree" where
  "tree_map f is_leaf (Arr m v) = f (Arr m v)"
| "tree_map f is_leaf (ImplicitArray a m cs) =
     (if is_leaf (ImplicitArray a m cs) then f (ImplicitArray a m cs)
      else ImplicitArray a m (map (tree_map f is_leaf) cs))"
| "tree_map f is_leaf (Node k cs) =
     (if is_leaf (Node k cs) then f (Node k cs)
      else Node k (map (tree_map f is_leaf) cs))"

definition tree_flatten :: "(tree \<Rightarrow> bool) \<Rightarrow> tree \<Rightarrow> tree list \<times> treedef" where
  "tree_flatten is_leaf t = (tree_leaves is_leaf t, tree_structure is_leaf t)"

text \<open>
  \<^verbatim>\<open>tree_util.tree_unflatten\<close>: the leaves fill the stars of the descriptor from left to
  right; a wrong number of leaves raises (\<open>None\<close>).
\<close>

fun unflatten_from :: "treedef \<Rightarrow> tree list \<Rightarrow> (tree \<times> tree list) option"
  and unflatten_children :: "treedef list \<Rightarrow> tree list \<Rightarrow> (tree list \<times> tree list) option"
where
  "unflatten_from LeafDef [] = None"
| "unflatten_from LeafDef (x # xs) = Some (x, xs)"
| "unflatten_from (ImplicitDef a m ds) xs =
     (case unflatten_children ds xs of
        None \<Rightarrow> None
      | Some (cs, rest) \<Rightarrow> Some (ImplicitArray a m cs, rest))"
| "unflatten_from (NodeDef k ds) xs =
     (case unflatten_children ds xs of
        None \<Rightarrow> None
      | Some (cs, rest) \<Rightarrow> Some (Node k cs, rest))"
| "unflatten_children [] xs = Some ([], xs)"
| "unflatten_children (d # ds) xs =
     (case unflatten_from d xs of
        None \<Rightarrow> None
      | Some (c, rest) \<Rightarrow>
          (case unflatten_children ds rest of
             None \<Rightarrow> None
           | Some (cs, rest') \<Rightarrow> Some (c # cs, rest')))"

definition tree_unflatten :: "treedef \<Rightarrow> tree list \<Rightarrow> tree option" where
  "tree_unflatten d xs =
     (case unflatten_from d xs of
        Some (t, []) \<Rightarrow> Some t
      | _ \<Rightarrow> None)"

section \<open>The helpers of \<^verbatim>\<open>utils.py\<close>\<close>

subsection \<open>\<^verbatim>\<open>vmap_all_but_one\<close>\<close>

text \<open>
  \<^verbatim>\<open>jax.vmap\<close> is a library call: \<open>Vmap fn in_axes out_axes\<close> stands for the function it
  returns, \<open>Fn\<close> for the argument \<^verbatim>\<open>f\<close>.
\<close>

datatype mapped = Fn | Vmap mapped int int

text \<open>The loop \<^verbatim>\<open>for i in reversed(range(n_dim))\<close> over the state \<open>(fn, vmap_dim, out_dim)\<close>.\<close>

fun vmap_loop :: "int \<Rightarrow> nat list \<Rightarrow> mapped \<times> int \<times> int \<Rightarrow> mapped \<times> int \<times> int" where
  "vmap_loop axis [] st = st"
| "vmap_loop axis (i # rest) (fn, vmap_dim, out_dim) =
     (if int i = axis then vmap_loop axis rest (fn, 0, 0)
      else vmap_loop axis rest (Vmap fn vmap_dim out_dim, vmap_dim, out_dim))"

text \<open>
  The call \<^verbatim>\<open>fn(*args)\<close> of line 29, on the shapes of the arguments. The function \<^verbatim>\<open>f\<close> is
  given by what it does to shapes: it returns the shape of its result or raises. A
  function made by \<^verbatim>\<open>jax.vmap\<close> raises a ValueError when \<^verbatim>\<open>in_axes\<close> is no axis of some
  argument, or when the arguments differ in size along that axis; otherwise it calls the
  function it wraps on the arguments without that axis, and puts the mapped axis into the
  result at \<^verbatim>\<open>out_axes\<close>, raising a ValueError when that is no axis of the result.
\<close>

type_synonym array_shape = "nat list"

definition axis_in_range :: "int \<Rightarrow> nat \<Rightarrow> bool" where
  "axis_in_range ax n \<longleftrightarrow> - int n \<le> ax \<and> ax < int n"

definition canonicalize_axis :: "int \<Rightarrow> nat \<Rightarrow> nat" where
  "canonicalize_axis ax n = nat (if ax < 0 then ax + int n else ax)"

fun call_mapped ::
  "(array_shape list \<Rightarrow> error + array_shape) \<Rightarrow> mapped \<Rightarrow> array_shape list
     \<Rightarrow> error + array_shape" where
  "call_mapped f Fn shapes = f shapes"
| "call_mapped f (Vmap fn in_axes out_axes) shapes =
     (if \<exists>s \<in> set shapes. \<not> axis_in_range in_axes (length s) then Inl ValueError_vmap
      else
        (let sizes = map (\<lambda>s. s ! canonicalize_axis in_axes (length s)) shapes in
         if \<exists>n \<in> set sizes. n \<noteq> hd sizes then Inl ValueError_vmap
         else
           (case call_mapped f fn
                   (map (\<lambda>s. take (canonicalize_axis in_axes (length s)) s @
                              drop (Suc (canonicalize_axis in_axes (length s))) s) shapes) of
              Inl e \<Rightarrow> Inl e
            | Inr res \<Rightarrow>
                if \<not> axis_in_range out_axes (Suc (length res)) then Inl ValueError_vmap
                else Inr (take (canonicalize_axis out_axes (Suc (length res))) res @ [hd sizes] @
                          drop (canonicalize_axis out_axes (Suc (length res))) res))))"

text \<open>
  The function \<^verbatim>\<open>inner\<close> that \<^verbatim>\<open>vmap_all_but_one(f, axis, out_ndim)\<close> returns, applied to
  arguments of the given shapes; \<^verbatim>\<open>args[0]\<close> raises an IndexError when there is no argument.
\<close>

definition vmap_all_but_one ::
  "(array_shape list \<Rightarrow> error + array_shape) \<Rightarrow> int \<Rightarrow> int \<Rightarrow> array_shape list
     \<Rightarrow> error + array_shape" where
  "vmap_all_but_one f axis out_ndim args =
     (case args of
        [] \<Rightarrow> Inl IndexError
      | a0 # _ \<Rightarrow>
          (let n_dim = length a0 in
           if axis \<ge> int n_dim then Inl (ValueError_axis axis n_dim)
           else call_mapped f (fst (vmap_loop axis (rev [0..<n_dim]) (Fn, 1, out_ndim))) args))"

text \<open>The faults that are a ValueError.\<close>

fun is_ValueError :: "error \<Rightarrow> bool" where
  "is_ValueError (ValueError_axis axis n_dim) = True"
| "is_ValueError ValueError_structure = True"
| "is_ValueError (ValueError_avals expected i actual) = True"
| "is_ValueError ValueError_vmap = True"
| "is_ValueError IndexError = False"

subsection \<open>The leaf predicate and the wrapped tree functions\<close>

definition combine_leaf_predicate ::
  "((tree \<Rightarrow> bool) \<Rightarrow> 'a) \<Rightarrow> (tree \<Rightarrow> bool) \<Rightarrow> (tree \<Rightarrow> bool) option \<Rightarrow> 'a" where
  "combine_leaf_predicate base_fn is_leaf new_is_leaf =
     (case new_is_leaf of
        None \<Rightarrow> base_fn is_leaf
      | Some g \<Rightarrow> base_fn (\<lambda>arg. is_leaf arg \<or> g arg))"

definition leaf_predicate :: "tree \<Rightarrow> bool" where
  "leaf_predicate x = is_implicit x"

definition tree_map_with_implicit :: "(tree \<Rightarrow> tree) \<Rightarrow> tree \<Rightarrow> tree" where
  "tree_map_with_implicit f t =
     combine_leaf_predicate (\<lambda>p. tree_map f p t) leaf_predicate None"

definition tree_flatten_with_implicit :: "tree \<Rightarrow> tree list \<times> treedef" where
  "tree_flatten_with_implicit t =
     combine_leaf_predicate (\<lambda>p. tree_flatten p t) leaf_predicate None"

definition tree_leaves_with_implicit :: "tree \<Rightarrow> tree list" where
  "tree_leaves_with_implicit t =
     combine_leaf_predicate (\<lambda>p. tree_leaves p t) leaf_predicate None"

definition tree_structure_with_implicit :: "tree \<Rightarrow> treedef" where
  "tree_structure_with_implicit t =
     combine_leaf_predicate (\<lambda>p. tree_structure p t) leaf_predicate None"

subsection \<open>\<^verbatim>\<open>flatten_one_implicit_layer\<close>\<close>

text \<open>
  \<^verbatim>\<open>x is not node\<close> compares object identity. The predicate is only asked at \<^verbatim>\<open>node\<close> and
  at nodes below it, and no tree contains itself, so identity and equality agree there.
\<close>

definition is_leaf_below_node :: "tree \<Rightarrow> tree \<Rightarrow> bool" where
  "is_leaf_below_node node x = (is_implicit x \<and> x \<noteq> node)"

text \<open>The Python integer \<^verbatim>\<open>1\<close> that stands for every leaf of the prototype.\<close>

definition one :: tree where
  "one = Arr (ShapedArray [] ''int32'') 1"

definition replace_subtree_implicits :: "tree \<Rightarrow> tree" where
  "replace_subtree_implicits node = tree_map (\<lambda>_. one) (is_leaf_below_node node) node"

definition flatten_one_implicit_layer :: "tree \<Rightarrow> tree list \<times> treedef" where
  "flatten_one_implicit_layer t =
     (let prototype = tree_map_with_implicit replace_subtree_implicits t;
          struct = tree_structure (\<lambda>_. False) prototype;
          leaves = tree_leaves_with_implicit t;
          leaves = concat (map (\<lambda>leaf.
                      if is_implicit leaf then tree_leaves (is_leaf_below_node leaf) leaf
                      else [leaf]) leaves)
      in (leaves, struct))"

subsection \<open>\<^verbatim>\<open>implicit_depth\<close>\<close>

text \<open>
  The loop \<^verbatim>\<open>while True\<close> over \<open>(leaves, depth)\<close>: the leaves that are not implicit are
  skipped, every implicit one contributes its one-layer leaves to the next round.
\<close>

function implicit_depth_loop :: "tree list \<Rightarrow> nat \<Rightarrow> nat" where
  "implicit_depth_loop leaves depth =
     (let implicit_leaves = filter is_implicit leaves;
          any_implicit = (implicit_leaves \<noteq> []);
          next_leaves = concat (map (\<lambda>leaf. fst (flatten_one_implicit_layer leaf)) implicit_leaves)
      in if \<not> any_implicit then depth
         else implicit_depth_loop next_leaves (depth + 1))"
  by pat_completeness auto

definition implicit_depth :: "tree \<Rightarrow> nat" where
  "implicit_depth t = implicit_depth_loop (tree_leaves_with_implicit t) 0"

subsection \<open>\<^verbatim>\<open>_map_leaves_with_implicit_path\<close> and \<^verbatim>\<open>_get_pruning_transform\<close>\<close>

text \<open>
  A call that returns yields \<open>Some (value, calls)\<close>, where \<open>calls\<close> lists, in order, the
  paths at which \<^verbatim>\<open>_materialize\<close> was invoked during the call. \<open>None\<close> is a call that
  returns no value: the loop of \<^verbatim>\<open>f\<close> runs forever, or \<^verbatim>\<open>tree_unflatten\<close> raises.
\<close>

type_synonym 'a traced = "('a \<times> path list) option"

text \<open>
  The function \<^verbatim>\<open>f\<close> of \<^verbatim>\<open>_get_pruning_transform\<close>:
  \<^verbatim>\<open>while isinstance(node, ImplicitArray): node = node._materialize()\<close>,
  with the materialization step \<open>mat\<close> of the nodes.
\<close>

partial_function (option) materialize_f :: "(tree \<Rightarrow> tree) \<Rightarrow> path \<Rightarrow> tree \<Rightarrow> tree traced" where
  "materialize_f mat path node =
     (if is_implicit node
      then Option.bind (materialize_f mat path (mat node)) (\<lambda>(y, calls). Some (y, path # calls))
      else Some (node, []))"

text \<open>The loop \<^verbatim>\<open>for idx, leaf in enumerate(leaves)\<close>, from index \<open>idx\<close> on.\<close>

function map_leaves_from ::
  "(path \<Rightarrow> tree \<Rightarrow> tree traced) \<Rightarrow> (path \<Rightarrow> tree \<Rightarrow> bool) \<Rightarrow> path \<Rightarrow> nat \<Rightarrow> tree list
     \<Rightarrow> (tree list) traced" where
  "map_leaves_from f is_leaf path_prefix idx [] = Some ([], [])"
| "map_leaves_from f is_leaf path_prefix idx (leaf # rest) =
     (let path = path_prefix @ [idx] in
      case (if \<not> is_implicit leaf \<or> is_leaf path leaf then f path leaf
            else
              (case map_leaves_from f is_leaf path 0 (fst (flatten_one_implicit_layer leaf)) of
                 None \<Rightarrow> None
               | Some (mapped_subtree, calls) \<Rightarrow>
                   (case tree_unflatten (snd (flatten_one_implicit_layer leaf)) mapped_subtree of
                      None \<Rightarrow> None
                    | Some t \<Rightarrow> Some (t, calls))))
      of None \<Rightarrow> None
       | Some (y, calls) \<Rightarrow>
           (case map_leaves_from f is_leaf path_prefix (idx + 1) rest of
              None \<Rightarrow> None
            | Some (ys, calls') \<Rightarrow> Some (y # ys, calls @ calls')))"
  by pat_completeness auto

definition map_leaves_with_implicit_path ::
  "(path \<Rightarrow> tree \<Rightarrow> tree traced) \<Rightarrow> tree list \<Rightarrow> (path \<Rightarrow> tree \<Rightarrow> bool) \<Rightarrow> path
     \<Rightarrow> (tree list) traced" where
  "map_leaves_with_implicit_path f leaves is_leaf path_prefix =
     map_leaves_from f is_leaf path_prefix 0 leaves"

text \<open>
  A transform is applied to a tree, with the materialization step of the tree's nodes.
\<close>

type_synonym transform = "(tree \<Rightarrow> tree) \<Rightarrow> tree \<Rightarrow> tree traced"

definition identity_transform :: transform where
  "identity_transform = (\<lambda>mat x. Some (x, []))"

definition materialize_subtrees :: "path set \<Rightarrow> transform" where
  "materialize_subtrees materialization_paths = (\<lambda>mat t.
     (let (leaves, struct) = tree_flatten_with_implicit t in
      case map_leaves_with_implicit_path (materialize_f mat) leaves
             (\<lambda>path leaf. path \<in> materialization_paths) [] of
        None \<Rightarrow> None
      | Some (mapped_leaves, calls) \<Rightarrow>
          (case tree_unflatten struct mapped_leaves of
             None \<Rightarrow> None
           | Some t' \<Rightarrow> Some (t', calls))))"

definition get_pruning_transform :: "tree \<Rightarrow> path set \<Rightarrow> transform" where
  "get_pruning_transform t materialization_paths =
     (if materialization_paths = {} then identity_transform
      else materialize_subtrees materialization_paths)"

subsection \<open>\<^verbatim>\<open>get_common_prefix_transforms\<close>\<close>

text \<open>\<^verbatim>\<open>zip(*xss)\<close>: the transposition, cut at the shortest list.\<close>

definition zip_star :: "'a list list \<Rightarrow> 'a list list" where
  "zip_star xss =
     (if xss = [] then []
      else map (\<lambda>i. map (\<lambda>xs. xs ! i) xss) [0..<min_list (map length xss)])"

text \<open>The precondition loops (lines 140 to 149): \<open>None\<close> when no check raises.\<close>

fun check_avals :: "nat \<Rightarrow> (tree \<times> aval) list \<Rightarrow> error option" where
  "check_avals i [] = None"
| "check_avals i ((leaf, expected_aval) # rest) =
     (let aval = get_aval leaf in
      if \<not> (shape aval = shape expected_aval \<and> dtype aval = dtype expected_aval)
      then Some (ValueError_avals expected_aval i aval)
      else check_avals i rest)"

fun check_trees :: "treedef \<Rightarrow> aval list \<Rightarrow> nat \<Rightarrow> (tree list \<times> treedef) list \<Rightarrow> error option" where
  "check_trees structure0 avals i [] = None"
| "check_trees structure0 avals i ((leaves, structure) # rest) =
     (if structure \<noteq> structure0 then Some ValueError_structure
      else (case check_avals i (zip leaves avals) of
              Some e \<Rightarrow> Some e
            | None \<Rightarrow> check_trees structure0 avals (i + 1) rest))"

text \<open>
  The metadata comparison (lines 179 to 190) over the state
  \<open>(materialization_paths, aval_diff)\<close>: the inner loop over \<^verbatim>\<open>leaves[1:]\<close>, and the outer
  loop over the position groups with its \<^verbatim>\<open>break\<close>.
\<close>

fun check_group :: "path \<Rightarrow> aval \<Rightarrow> tree list \<Rightarrow> path set \<times> bool \<Rightarrow> path set \<times> bool" where
  "check_group path_prefix first_aval [] st = st"
| "check_group path_prefix first_aval (leaf # rest) (materialization_paths, aval_diff) =
     (let aval = get_aval leaf in
      if \<not> (shape aval = shape first_aval \<and> dtype aval = dtype first_aval)
      then check_group path_prefix first_aval rest (insert path_prefix materialization_paths, True)
      else check_group path_prefix first_aval rest (materialization_paths, aval_diff))"

fun check_groups :: "path \<Rightarrow> tree list list \<Rightarrow> path set \<times> bool \<Rightarrow> path set \<times> bool" where
  "check_groups path_prefix [] st = st"
| "check_groups path_prefix (leaves # more) st =
     (let st' = check_group path_prefix (get_aval (hd leaves)) (tl leaves) st in
      if snd st' then st' else check_groups path_prefix more st')"

type_synonym entry = "path \<times> tree list"

text \<open>
  One round of \<^verbatim>\<open>while stack\<close> (lines 167 to 196) on a non-empty stack: \<^verbatim>\<open>pop\<close> takes the
  last entry, \<^verbatim>\<open>append\<close> adds at the end.
\<close>

definition loop_body :: "entry list \<times> path set \<Rightarrow> entry list \<times> path set" where
  "loop_body st =
     (let (stack, materialization_paths) = st;
          (path_prefix, nodes) = last stack;
          stack = butlast stack
      in if \<not> list_ex is_implicit nodes then (stack, materialization_paths)
         else
           (let flat = map flatten_one_implicit_layer nodes;
                all_leaves = map fst flat;
                all_structures = map snd flat;
                node_structures = set all_structures
            in if card node_structures > 1
               then (stack, insert path_prefix materialization_paths)
               else
                 (let (materialization_paths, aval_diff) =
                        check_groups path_prefix (zip_star all_leaves) (materialization_paths, False)
                  in if aval_diff then (stack, materialization_paths)
                     else (stack @ map (\<lambda>(i, leaf_group). (path_prefix @ [i], leaf_group))
                                     (enumerate 0 (zip_star all_leaves)),
                           materialization_paths))))"

function traverse :: "entry list \<times> path set \<Rightarrow> path set" where
  "traverse st = (if fst st = [] then snd st else traverse (loop_body st))"
  by pat_completeness auto

text \<open>The stack as lines 156 to 163 fill it.\<close>

definition initial_stack :: "tree list \<Rightarrow> entry list" where
  "initial_stack trees =
     (let all_leaves = map tree_leaves_with_implicit trees
      in map (\<lambda>(i, nodes). ([i], nodes)) (enumerate 0 (zip_star all_leaves)))"

text \<open>The set \<^verbatim>\<open>materialization_paths\<close> when the loop of lines 165 to 196 ends.\<close>

definition common_prefix_paths :: "tree list \<Rightarrow> path set" where
  "common_prefix_paths trees = traverse (initial_stack trees, {})"

definition get_common_prefix_transforms :: "tree list \<Rightarrow> error + transform list" where
  "get_common_prefix_transforms trees =
     (if length trees \<le> 1 then Inr (map (\<lambda>_. identity_transform) trees)
      else
        (let flat = map tree_flatten_with_implicit trees;
             all_leaves = map fst flat;
             structures = map snd flat;
             post_materialization_avals = map get_aval (hd all_leaves)
         in case check_trees (hd structures) post_materialization_avals 1
                   (zip (tl all_leaves) (tl structures)) of
              Some e \<Rightarrow> Inl e
            | None \<Rightarrow>
                (let materialization_paths = common_prefix_paths trees
                 in Inr (map (\<lambda>t. get_pruning_transform t materialization_paths) trees))))"

section \<open>Auxiliary notions for the proofs\<close>

text \<open>The number of nodes of a tree: the measure of the loops that expand implicit arrays.\<close>

fun weight :: "tree \<Rightarrow> nat" where
  "weight (Arr m v) = 1"
| "weight (ImplicitArray a m cs) = Suc (sum_list (map weight cs))"
| "weight (Node k cs) = Suc (sum_list (map weight cs))"

text \<open>The comparison of lines 146 and 186, negated: the metadata of \<open>leaf\<close> differs from \<open>a\<close>.\<close>

definition aval_mismatch :: "aval \<Rightarrow> tree \<Rightarrow> bool" where
  "aval_mismatch a leaf =
     (\<not> (shape (get_aval leaf) = shape a \<and> dtype (get_aval leaf) = dtype a))"

text \<open>Some element of a position group differs in metadata from the first element of the group.\<close>

definition group_mismatch :: "tree list \<Rightarrow> bool" where
  "group_mismatch g = (\<exists>leaf \<in> set (tl g). aval_mismatch (get_aval (hd g)) leaf)"

text \<open>The position groups of an entry: \<^verbatim>\<open>zip(*all_leaves)\<close> of line 180.\<close>

definition entry_groups :: "tree list \<Rightarrow> tree list list" where
  "entry_groups nodes = zip_star (map (\<lambda>n. fst (flatten_one_implicit_layer n)) nodes)"

text \<open>The one-layer descriptors of the nodes of an entry (line 171).\<close>

definition entry_structures :: "tree list \<Rightarrow> treedef list" where
  "entry_structures nodes = map (\<lambda>n. snd (flatten_one_implicit_layer n)) nodes"

text \<open>The entries one round of the loop pushes for the entry it pops.\<close>

definition entry_children :: "entry \<Rightarrow> entry list" where
  "entry_children e =
     (if \<not> list_ex is_implicit (snd e) then []
      else if card (set (entry_structures (snd e))) > 1 then []
      else if \<exists>g \<in> set (entry_groups (snd e)). group_mismatch g then []
      else map (\<lambda>(i, g). (fst e @ [i], g)) (enumerate 0 (entry_groups (snd e))))"

text \<open>The paths one round of the loop adds for the entry it pops.\<close>

definition entry_added :: "entry \<Rightarrow> path set" where
  "entry_added e =
     (if \<not> list_ex is_implicit (snd e) then {}
      else if card (set (entry_structures (snd e))) > 1 then {fst e}
      else if \<exists>g \<in> set (entry_groups (snd e)). group_mismatch g then {fst e}
      else {})"

text \<open>The measure of a stack entry: the size of its first node.\<close>

definition entry_weight :: "entry \<Rightarrow> nat" where
  "entry_weight e = (case snd e of [] \<Rightarrow> 1 | n # _ \<Rightarrow> weight n)"

text \<open>The paths that an entry and everything pushed under it add: the loop run on the entry alone.\<close>

definition entry_paths :: "entry \<Rightarrow> path set" where
  "entry_paths e = traverse ([e], {})"

text \<open>The state after \<open>n\<close> rounds of the loop, or the final state if the stack empties before.\<close>

fun rounds :: "nat \<Rightarrow> entry list \<times> path set \<Rightarrow> entry list \<times> path set" where
  "rounds 0 st = st"
| "rounds (Suc n) st = (if fst st = [] then st else rounds n (loop_body st))"

text \<open>Example inputs: two trees whose implicit leaves expand differently at both positions.\<close>

definition m3 :: aval where "m3 = ShapedArray [3] ''float32''"

definition treeA :: tree where
  "treeA = Node PyList [ImplicitArray 0 m3 [Arr m3 0], ImplicitArray 0 m3 [Arr m3 0]]"
definition treeB :: tree where
  "treeB = Node PyList [ImplicitArray 0 m3 [Arr m3 0, Arr m3 1], ImplicitArray 1 m3 [Arr m3 0]]"

text \<open>The tree contains no implicit array.\<close>

fun no_implicit :: "tree \<Rightarrow> bool" where
  "no_implicit (Arr m v) = True"
| "no_implicit (ImplicitArray a m cs) = False"
| "no_implicit (Node k cs) = list_all no_implicit cs"

text \<open>
  Two leaf lists are identical except that the implicit array at path \<open>P\<close> expands to a
  different topology: off the path the lists agree; the nodes on the path above \<open>P\<close> are
  implicit arrays with the same one-layer descriptor; the two nodes at \<open>P\<close> are implicit
  arrays with the same declared metadata and different one-layer descriptors.
\<close>

inductive differs_at :: "path \<Rightarrow> tree list \<Rightarrow> tree list \<Rightarrow> bool" where
  here: "length xs = length ys \<Longrightarrow> i < length xs \<Longrightarrow>
         (\<forall>j < length xs. j \<noteq> i \<longrightarrow> xs ! j = ys ! j) \<Longrightarrow>
         is_implicit (xs ! i) \<Longrightarrow> is_implicit (ys ! i) \<Longrightarrow>
         get_aval (xs ! i) = get_aval (ys ! i) \<Longrightarrow>
         snd (flatten_one_implicit_layer (xs ! i)) \<noteq> snd (flatten_one_implicit_layer (ys ! i)) \<Longrightarrow>
         differs_at [i] xs ys"
| below: "length xs = length ys \<Longrightarrow> i < length xs \<Longrightarrow>
         (\<forall>j < length xs. j \<noteq> i \<longrightarrow> xs ! j = ys ! j) \<Longrightarrow>
         is_implicit (xs ! i) \<Longrightarrow> is_implicit (ys ! i) \<Longrightarrow>
         snd (flatten_one_implicit_layer (xs ! i)) = snd (flatten_one_implicit_layer (ys ! i)) \<Longrightarrow>
         differs_at P (fst (flatten_one_implicit_layer (xs ! i)))
                      (fst (flatten_one_implicit_layer (ys ! i))) \<Longrightarrow>
         differs_at (i # P) xs ys"

text \<open>Example inputs: two trees that differ only in the expansion of the implicit array at path \<open>(1, 0)\<close>.\<close>

definition treeC :: tree where
  "treeC = Node PyList [Arr m3 0, ImplicitArray 0 m3 [ImplicitArray 1 m3 [Arr m3 0], Arr m3 5]]"

definition treeD :: tree where
  "treeD = Node PyList [Arr m3 0, ImplicitArray 0 m3 [ImplicitArray 2 m3 [Arr m3 0, Arr m3 1], Arr m3 5]]"

text \<open>Example inputs: two trees with one and with two top-level leaves.\<close>

definition tree1 :: tree where
  "tree1 = Node PyList [Arr m3 0]"

definition tree2 :: tree where
  "tree2 = Node PyList [Arr m3 0, Arr m3 1]"

text \<open>
  The work set of the design, in the words of its section 4.5: the outcome of one entry
  is the list of entries it enqueues and the set of paths it records. If no node is
  implicit, nothing; if the one-layer descriptors are not all equal, the prefix; if in some
  position group an element's metadata differs from the first element's, the prefix;
  otherwise one entry per position group.
\<close>

definition spec_process :: "entry \<Rightarrow> entry list \<times> path set" where
  "spec_process e =
     (let (path_prefix, nodes) = e in
      if \<not> (\<exists>n \<in> set nodes. is_implicit n) then ([], {})
      else
        (let expanded = map flatten_one_implicit_layer nodes;
             descriptors = map snd expanded;
             groups = zip_star (map fst expanded)
         in if \<not> (\<forall>d \<in> set descriptors. d = hd descriptors) then ([], {path_prefix})
            else if \<exists>g \<in> set groups. \<exists>x \<in> set g. get_aval x \<noteq> get_aval (hd g)
                 then ([], {path_prefix})
            else (map (\<lambda>(i, g). (path_prefix @ [i], g)) (enumerate 0 groups), {})))"

text \<open>The work set taken in any order: a step takes any entry of the multiset.\<close>

inductive work_step :: "entry multiset \<times> path set \<Rightarrow> entry multiset \<times> path set \<Rightarrow> bool" where
  take: "e \<in># W \<Longrightarrow>
         work_step (W, M) (W - {#e#} + mset (fst (spec_process e)), M \<union> snd (spec_process e))"

text \<open>The work set as a first-in first-out queue: entries leave at the front and join at the back.\<close>

function traverse_queue :: "entry list \<times> path set \<Rightarrow> path set" where
  "traverse_queue st =
     (if fst st = [] then snd st
      else traverse_queue (tl (fst st) @ fst (spec_process (hd (fst st))),
                           snd st \<union> snd (spec_process (hd (fst st)))))"
  by pat_completeness auto

text \<open>A container, as opposed to a leaf or an implicit array.\<close>

fun is_container :: "tree \<Rightarrow> bool" where
  "is_container (Node k cs) = True"
| "is_container (Arr m v) = False"
| "is_container (ImplicitArray a m cs) = False"

text \<open>
  The node a path addresses: an index into the leaf list, then, for a longer path, into the
  one-layer leaves of the implicit array found there.
\<close>

fun node_at :: "tree list \<Rightarrow> path \<Rightarrow> tree option" where
  "node_at leaves [] = None"
| "node_at leaves [i] = (if i < length leaves then Some (leaves ! i) else None)"
| "node_at leaves (i # j # r) =
     (if i < length leaves \<and> is_implicit (leaves ! i)
      then node_at (fst (flatten_one_implicit_layer (leaves ! i))) (j # r)
      else None)"

text \<open>
  The call of \<^verbatim>\<open>_map_leaves_with_implicit_path\<close> that \<^verbatim>\<open>materialize_subtrees\<close> makes, from
  index \<open>idx\<close> under the prefix \<open>pre\<close>: \<^verbatim>\<open>f\<close> is the materialization loop and \<^verbatim>\<open>is_leaf\<close> is
  membership in the path set.
\<close>

definition prune_leaves ::
  "(tree \<Rightarrow> tree) \<Rightarrow> path set \<Rightarrow> path \<Rightarrow> nat \<Rightarrow> tree list \<Rightarrow> (tree list) traced" where
  "prune_leaves mat paths pre idx leaves =
     map_leaves_from (materialize_f mat) (\<lambda>path leaf. path \<in> paths) pre idx leaves"

text \<open>Example: a materialization step that yields a concrete array at once.\<close>

definition mat7 :: "tree \<Rightarrow> tree" where
  "mat7 n = Arr (get_aval n) 7"

text \<open>
  What a transform built from the set \<open>paths\<close> does to the node \<open>n\<close> at path \<open>p\<close>, where
  \<open>res\<close> is the node at \<open>p\<close> afterwards. A node that is neither at, nor below, nor above a
  recorded path is unchanged. A node that is neither at nor below a recorded path keeps
  its kind, its metadata and its one-layer descriptor. A node at a recorded path with no
  recorded path above it is replaced by the result of the materialization loop.
\<close>

definition pruned_node :: "(tree \<Rightarrow> tree) \<Rightarrow> path set \<Rightarrow> path \<Rightarrow> tree \<Rightarrow> tree option \<Rightarrow> bool" where
  "pruned_node mat paths p n res \<longleftrightarrow>
     ((\<forall>q \<in> paths. \<not> prefix q p \<and> \<not> prefix p q) \<longrightarrow> res = Some n) \<and>
     ((\<forall>q \<in> paths. \<not> prefix q p) \<longrightarrow>
        (\<exists>n'. res = Some n' \<and> is_implicit n' = is_implicit n \<and> get_aval n' = get_aval n \<and>
              snd (flatten_one_implicit_layer n') = snd (flatten_one_implicit_layer n))) \<and>
     (p \<in> paths \<and> (\<forall>q \<in> paths. prefix q p \<longrightarrow> q = p) \<longrightarrow>
        (\<exists>c cs. materialize_f mat p n = Some (c, cs) \<and> res = Some c))"

text \<open>
  Calling \<open>fn\<close> raises a ValueError whenever the first argument has \<open>n\<close> dimensions.
\<close>

definition raises_at_rank ::
  "(array_shape list \<Rightarrow> error + array_shape) \<Rightarrow> nat \<Rightarrow> mapped \<Rightarrow> bool" where
  "raises_at_rank f n fn \<longleftrightarrow>
     (\<forall>a0 rest. length a0 = n \<longrightarrow>
        (\<exists>e. call_mapped f fn (a0 # rest) = Inl e \<and> is_ValueError e))"

section \<open>Termination of the loops\<close>

lemma weight_pos: "0 < weight t"
  by (cases t) simp_all

lemma sum_list_concat_le:
  assumes "\<And>x. x \<in> set xs \<Longrightarrow> sum_list (map w (f x)) \<le> (g x :: nat)"
  shows "sum_list (map w (concat (map f xs))) \<le> sum_list (map g xs)"
  using assms by (induction xs) (auto simp: add_mono)

lemma weight_tree_leaves: "sum_list (map weight (tree_leaves p t)) \<le> weight t"
proof (induction t)
  case (Arr m v)
  show ?case by simp
next
  case (ImplicitArray a m cs)
  have "sum_list (map weight (concat (map (tree_leaves p) cs))) \<le> sum_list (map weight cs)"
    by (rule sum_list_concat_le) (rule ImplicitArray.IH)
  then show ?case by simp
next
  case (Node k cs)
  have "sum_list (map weight (concat (map (tree_leaves p) cs))) \<le> sum_list (map weight cs)"
    by (rule sum_list_concat_le) (rule Node.IH)
  then show ?case by simp
qed

lemma wrapped_simps:
  "tree_leaves_with_implicit t = tree_leaves is_implicit t"
  "tree_structure_with_implicit t = tree_structure is_implicit t"
  "tree_map_with_implicit f t = tree_map f is_implicit t"
  "tree_flatten_with_implicit t = (tree_leaves is_implicit t, tree_structure is_implicit t)"
proof -
  have "leaf_predicate = is_implicit" by (rule ext) (simp add: leaf_predicate_def)
  then show "tree_leaves_with_implicit t = tree_leaves is_implicit t"
    "tree_structure_with_implicit t = tree_structure is_implicit t"
    "tree_map_with_implicit f t = tree_map f is_implicit t"
    "tree_flatten_with_implicit t = (tree_leaves is_implicit t, tree_structure is_implicit t)"
    by (simp_all add: tree_leaves_with_implicit_def tree_structure_with_implicit_def
        tree_map_with_implicit_def tree_flatten_with_implicit_def combine_leaf_predicate_def
        tree_flatten_def)
qed

lemma flatten_one_Arr: "flatten_one_implicit_layer (Arr m v) = ([Arr m v], LeafDef)"
  by (simp add: flatten_one_implicit_layer_def wrapped_simps replace_subtree_implicits_def one_def)

lemma flatten_one_Implicit_fst:
  "fst (flatten_one_implicit_layer (ImplicitArray a m cs)) =
     concat (map (tree_leaves (is_leaf_below_node (ImplicitArray a m cs))) cs)"
  by (simp add: flatten_one_implicit_layer_def wrapped_simps is_leaf_below_node_def)

lemma flatten_one_Implicit_snd:
  "\<exists>ds. snd (flatten_one_implicit_layer (ImplicitArray a m cs)) = ImplicitDef a m ds"
  by (simp add: flatten_one_implicit_layer_def wrapped_simps replace_subtree_implicits_def
      is_leaf_below_node_def)

lemma flatten_one_Node_snd:
  "\<exists>ds. snd (flatten_one_implicit_layer (Node k cs)) = NodeDef k ds"
  by (simp add: flatten_one_implicit_layer_def wrapped_simps)

lemma weight_flatten_one:
  assumes "is_implicit t"
  shows "sum_list (map weight (fst (flatten_one_implicit_layer t))) < weight t"
proof -
  from assms obtain a m cs where t: "t = ImplicitArray a m cs" by (cases t) auto
  have "sum_list (map weight (concat (map (tree_leaves (is_leaf_below_node t)) cs)))
          \<le> sum_list (map weight cs)"
    by (rule sum_list_concat_le) (rule weight_tree_leaves)
  then show ?thesis unfolding t flatten_one_Implicit_fst by simp
qed

termination implicit_depth_loop
proof (relation "measure (\<lambda>(leaves, depth). sum_list (map weight leaves))", goal_cases)
  case 1
  show ?case by simp
next
  case (2 leaves depth implicit_leaves any_implicit next_leaves)
  have a: "sum_list (map weight (concat (map (\<lambda>leaf. fst (flatten_one_implicit_layer leaf)) ls)))
        < sum_list (map weight ls)" if "ls \<noteq> []" "\<forall>l\<in>set ls. is_implicit l" for ls
    using that
  proof (induction ls)
    case Nil then show ?case by simp
  next
    case (Cons l ls)
    have "sum_list (map weight (fst (flatten_one_implicit_layer l))) < weight l"
      using Cons.prems by (simp add: weight_flatten_one)
    moreover have "sum_list (map weight (concat (map (\<lambda>leaf. fst (flatten_one_implicit_layer leaf)) ls)))
        \<le> sum_list (map weight ls)"
      using Cons by (cases "ls = []") (auto simp: less_imp_le)
    ultimately show ?case by simp
  qed
  have b: "sum_list (map weight (filter is_implicit leaves)) \<le> sum_list (map weight leaves)"
    by (induction leaves) auto
  from 2 have ne: "filter is_implicit leaves \<noteq> []" by simp
  have "sum_list (map weight (concat (map (\<lambda>leaf. fst (flatten_one_implicit_layer leaf))
          (filter is_implicit leaves)))) < sum_list (map weight (filter is_implicit leaves))"
    by (rule a[OF ne]) simp
  with b have "sum_list (map weight (concat (map (\<lambda>leaf. fst (flatten_one_implicit_layer leaf))
          (filter is_implicit leaves)))) < sum_list (map weight leaves)"
    by linarith
  with 2 show ?case by (simp only: in_measure prod.case)
qed

lemma weight_take: "sum_list (map weight (take k xs)) \<le> sum_list (map weight xs)"
  by (metis append_take_drop_id le_add1 map_append sum_list.append)

termination map_leaves_from
proof (relation "measure (\<lambda>(f, is_leaf, pre, idx, leaves). sum_list (map weight leaves))", goal_cases)
  case 1
  show ?case by simp
next
  case (2 f is_leaf path_prefix idx leaf rest x)
  then show ?case using weight_flatten_one[of leaf] by simp
next
  case (3 f is_leaf path_prefix idx leaf rest x)
  then show ?case using weight_pos[of leaf] by simp
qed

subsection \<open>One round of the main loop\<close>

lemma check_group_eq:
  "check_group p a ls (mp, d) =
     (if \<exists>l \<in> set ls. aval_mismatch a l then (insert p mp, True) else (mp, d))"
  by (induction ls arbitrary: mp d) (auto simp: aval_mismatch_def Let_def)

lemma check_groups_eq:
  "check_groups p gs (mp, False) =
     (if \<exists>g \<in> set gs. group_mismatch g then (insert p mp, True) else (mp, False))"
  by (induction gs) (auto simp: check_group_eq group_mismatch_def Let_def)

lemma loop_body_eq:
  assumes "stack \<noteq> []"
  shows "loop_body (stack, mp) =
           (butlast stack @ entry_children (last stack), mp \<union> entry_added (last stack))"
proof -
  obtain p nodes where e: "last stack = (p, nodes)" by (cases "last stack")
  have m: "map fst (map flatten_one_implicit_layer nodes)
             = map (\<lambda>n. fst (flatten_one_implicit_layer n)) nodes"
          "map snd (map flatten_one_implicit_layer nodes)
             = map (\<lambda>n. snd (flatten_one_implicit_layer n)) nodes"
    by simp_all
  show ?thesis
    unfolding loop_body_def Let_def prod.case e m entry_children_def entry_added_def
      entry_groups_def[symmetric] entry_structures_def[symmetric] check_groups_eq fst_conv snd_conv
    by (simp del: list_ex_iff)
qed

lemma card_le_one_all_eq:
  assumes "\<not> 1 < card (set xs)" "x \<in> set xs" "y \<in> set xs"
  shows "x = y"
proof -
  have "card (set xs) \<le> 1" using assms(1) by simp
  then have "\<forall>a\<in>set xs. \<forall>b\<in>set xs. a = b"
    by (simp add: card_le_Suc0_iff_eq)
  then show ?thesis using assms(2,3) by blast
qed

lemma flatten_one_snd_implicit_iff:
  "(\<exists>a m ds. snd (flatten_one_implicit_layer t) = ImplicitDef a m ds) \<longleftrightarrow> is_implicit t"
proof (cases t)
  case (Arr m v)
  then show ?thesis by (simp add: flatten_one_Arr)
next
  case (ImplicitArray a m cs)
  then show ?thesis using flatten_one_Implicit_snd[of a m cs] by auto
next
  case (Node k cs)
  then show ?thesis using flatten_one_Node_snd[of k cs] by auto
qed

lemma flatten_one_snd_implicit:
  "snd (flatten_one_implicit_layer t) = snd (flatten_one_implicit_layer u) \<Longrightarrow>
   is_implicit u \<Longrightarrow> is_implicit t"
  by (simp add: flatten_one_snd_implicit_iff[symmetric])

lemma structures_equal_all_implicit:
  assumes "list_ex is_implicit nodes" "\<not> 1 < card (set (entry_structures nodes))" "n \<in> set nodes"
  shows "is_implicit n"
proof -
  from assms(1) obtain u where u: "u \<in> set nodes" "is_implicit u" by (auto simp: list_ex_iff)
  have "snd (flatten_one_implicit_layer n) = snd (flatten_one_implicit_layer u)"
    by (rule card_le_one_all_eq[OF assms(2)]) (use u assms(3) in \<open>auto simp: entry_structures_def\<close>)
  then show ?thesis using u(2) by (rule flatten_one_snd_implicit)
qed

lemma length_zip_star:
  "length (zip_star (xs # xss)) = min_list (map length (xs # xss))"
  by (simp add: zip_star_def)

lemma zip_star_nth:
  "i < length (zip_star xss) \<Longrightarrow> zip_star xss ! i = map (\<lambda>xs. xs ! i) xss"
  by (auto simp: zip_star_def split: if_splits)

lemma min_list_le_hd: "min_list (x # xs) \<le> (x::nat)"
  by (cases xs) auto

lemma sum_list_nth_take:
  "k \<le> length xs \<Longrightarrow> sum_list (map (\<lambda>i. f (xs ! i)) [0..<k]) = sum_list (map f (take k xs))"
proof (induction k)
  case 0 show ?case by simp
next
  case (Suc k)
  then show ?case by (simp add: take_Suc_conv_app_nth)
qed

lemma entry_children_weight:
  assumes "entry_children e \<noteq> []"
  shows "sum_list (map entry_weight (entry_children e)) < entry_weight e"
proof -
  obtain p nodes where e: "e = (p, nodes)" by (cases e)
  from assms have imp: "list_ex is_implicit nodes"
    and st: "\<not> 1 < card (set (entry_structures nodes))"
    and ch: "entry_children e = map (\<lambda>(i, g). (p @ [i], g)) (enumerate 0 (entry_groups nodes))"
    unfolding e entry_children_def by (auto split: if_splits)
  from imp obtain n ns where nodes: "nodes = n # ns" by (cases nodes) auto
  have n: "is_implicit n"
    by (rule structures_equal_all_implicit[OF imp st]) (simp add: nodes)
  let ?L = "fst (flatten_one_implicit_layer n)"
  let ?k = "length (entry_groups nodes)"
  have k: "?k \<le> length ?L"
    unfolding entry_groups_def nodes by (simp add: length_zip_star min_list_le_hd del: min_list.simps)
  have w: "entry_weight (p @ [i], entry_groups nodes ! i) = weight (?L ! i)" if "i < ?k" for i
    using that unfolding entry_groups_def by (simp add: zip_star_nth entry_weight_def nodes)
  have "map entry_weight (entry_children e) = map (\<lambda>i. weight (?L ! i)) [0..<?k]"
    unfolding ch by (rule nth_equalityI) (simp_all add: nth_enumerate_eq w)
  then have "sum_list (map entry_weight (entry_children e)) = sum_list (map weight (take ?k ?L))"
    using sum_list_nth_take[OF k, of weight] by simp
  also have "\<dots> \<le> sum_list (map weight ?L)" by (rule weight_take)
  also have "\<dots> < weight n" by (rule weight_flatten_one[OF n])
  finally show ?thesis by (simp add: e nodes entry_weight_def)
qed

lemma entry_weight_pos: "0 < entry_weight e"
  by (auto simp: entry_weight_def weight_pos split: list.splits)

lemma loop_body_decreases:
  assumes "stack \<noteq> []"
  shows "sum_list (map entry_weight (fst (loop_body (stack, mp))))
           < sum_list (map entry_weight stack)"
proof -
  have s: "sum_list (map entry_weight stack)
             = sum_list (map entry_weight (butlast stack)) + entry_weight (last stack)"
  proof -
    have "sum_list (map entry_weight (butlast stack @ [last stack]))
            = sum_list (map entry_weight (butlast stack)) + entry_weight (last stack)"
      by simp
    then show ?thesis using assms by simp
  qed
  have "sum_list (map entry_weight (entry_children (last stack))) < entry_weight (last stack)"
    using entry_children_weight[of "last stack"] entry_weight_pos[of "last stack"]
    by (cases "entry_children (last stack) = []") auto
  then show ?thesis unfolding loop_body_eq[OF assms] s by simp
qed

termination traverse
proof (relation "measure (\<lambda>st. sum_list (map entry_weight (fst st)))", goal_cases)
  case 1
  show ?case by simp
next
  case (2 st)
  obtain stack mp where st: "st = (stack, mp)" by (cases st)
  from 2 have "stack \<noteq> []" by (simp add: st)
  from loop_body_decreases[OF this, of mp] show ?case
    by (simp only: in_measure st fst_conv)
qed

section \<open>The main loop as a union over the entries of the stack\<close>

declare traverse.simps [simp del]

lemma traverse_Nil: "traverse ([], mp) = mp"
  by (simp add: traverse.simps)

lemma traverse_step:
  "stack \<noteq> [] \<Longrightarrow> traverse (stack, mp) =
     traverse (butlast stack @ entry_children (last stack), mp \<union> entry_added (last stack))"
  by (subst traverse.simps) (simp add: loop_body_eq)

lemma traverse_snoc:
  "traverse (stack @ [e], mp) = traverse (stack @ entry_children e, mp \<union> entry_added e)"
  using traverse_step[of "stack @ [e]" mp] by simp

lemma stack_induct [case_names Nil snoc]:
  assumes "P []"
    and "\<And>stack e. P (stack @ entry_children e) \<Longrightarrow> P (stack @ [e])"
  shows "P stack"
proof (induction stack rule: measure_induct_rule[where f = "\<lambda>s. sum_list (map entry_weight s)"])
  case (less s)
  show ?case
  proof (cases s rule: rev_cases)
    case Nil
    then show ?thesis using assms(1) by simp
  next
    case (snoc b e)
    have "sum_list (map entry_weight (entry_children e)) < entry_weight e"
      using entry_children_weight[of e] entry_weight_pos[of e]
      by (cases "entry_children e = []") auto
    then have "P (b @ entry_children e)" by (intro less) (simp add: snoc)
    then show ?thesis unfolding snoc by (rule assms(2))
  qed
qed

lemma traverse_mono: "traverse (stack, mp) = mp \<union> traverse (stack, {})"
proof (induction stack arbitrary: mp rule: stack_induct)
  case Nil
  show ?case by (simp add: traverse_Nil)
next
  case (snoc stack e)
  have "traverse (stack @ [e], mp) = (mp \<union> entry_added e) \<union> traverse (stack @ entry_children e, {})"
    unfolding traverse_snoc by (rule snoc)
  moreover have "traverse (stack @ [e], {}) = entry_added e \<union> traverse (stack @ entry_children e, {})"
    unfolding traverse_snoc using snoc[of "{} \<union> entry_added e"] by simp
  ultimately show ?case by auto
qed

lemma traverse_append: "traverse (s1 @ s2, mp) = traverse (s1, traverse (s2, mp))"
proof (induction s2 arbitrary: mp rule: stack_induct)
  case Nil
  show ?case by (simp add: traverse_Nil)
next
  case (snoc s2 e)
  have "traverse (s1 @ s2 @ [e], mp) = traverse (s1 @ s2 @ entry_children e, mp \<union> entry_added e)"
    using traverse_snoc[of "s1 @ s2" e mp] by simp
  also have "\<dots> = traverse (s1, traverse (s2 @ entry_children e, mp \<union> entry_added e))"
    by (rule snoc)
  also have "\<dots> = traverse (s1, traverse (s2 @ [e], mp))"
    by (simp add: traverse_snoc)
  finally show ?case .
qed

lemma traverse_entry_paths: "traverse (stack, mp) = mp \<union> (\<Union>e \<in> set stack. entry_paths e)"
proof (induction stack arbitrary: mp)
  case Nil
  show ?case by (simp add: traverse_Nil)
next
  case (Cons e stack)
  have "traverse (e # stack, mp) = traverse ([e], traverse (stack, mp))"
    using traverse_append[of "[e]" stack mp] by simp
  also have "\<dots> = traverse (stack, mp) \<union> entry_paths e"
    unfolding entry_paths_def by (rule traverse_mono)
  finally show ?case using Cons[of mp] by auto
qed

lemma entry_paths_unfold:
  "entry_paths e = entry_added e \<union> (\<Union>c \<in> set (entry_children e). entry_paths c)"
proof -
  have "entry_paths e = traverse ([] @ entry_children e, {} \<union> entry_added e)"
    unfolding entry_paths_def using traverse_snoc[of "[]" e "{}"] by simp
  then show ?thesis by (simp add: traverse_entry_paths)
qed

lemma entry_induct [case_names entry]:
  assumes "\<And>e. (\<And>c. c \<in> set (entry_children e) \<Longrightarrow> P c) \<Longrightarrow> P e"
  shows "P e"
proof (induction e rule: measure_induct_rule[where f = entry_weight])
  case (less e)
  show ?case
  proof (rule assms)
    fix c assume c: "c \<in> set (entry_children e)"
    then have "entry_weight c \<le> sum_list (map entry_weight (entry_children e))"
      by (simp add: member_le_sum_list)
    also have "\<dots> < entry_weight e"
    proof (rule entry_children_weight)
      show "entry_children e \<noteq> []" using c by auto
    qed
    finally show "P c" by (rule less)
  qed
qed

lemma entry_children_set:
  "set (entry_children e) \<subseteq> (\<lambda>i. (fst e @ [i], entry_groups (snd e) ! i)) ` {..<length (entry_groups (snd e))}"
  by (auto simp: entry_children_def in_set_enumerate_eq image_iff)

lemma entry_children_elem:
  "c \<in> set (entry_children e) \<Longrightarrow>
     \<exists>i<length (entry_groups (snd e)). c = (fst e @ [i], entry_groups (snd e) ! i)"
  using entry_children_set[of e] by auto

lemma entry_added_children: "entry_added e \<noteq> {} \<Longrightarrow> entry_children e = []"
  by (auto simp: entry_added_def entry_children_def split: if_splits)

lemma entry_added_subset: "entry_added e \<subseteq> {fst e}"
  by (auto simp: entry_added_def)

lemma entry_paths_prefix: "q \<in> entry_paths e \<Longrightarrow> prefix (fst e) q"
proof (induction e arbitrary: q rule: entry_induct)
  case (entry e)
  from entry.prems consider "q \<in> entry_added e"
    | c where "c \<in> set (entry_children e)" "q \<in> entry_paths c"
    by (subst (asm) entry_paths_unfold) auto
  then show ?case
  proof cases
    case 1
    then show ?thesis using entry_added_subset[of e] by auto
  next
    case 2
    then have "prefix (fst c) q" by (rule entry.IH)
    moreover from entry_children_elem[OF 2(1)] obtain i where "fst c = fst e @ [i]" by auto
    ultimately show ?thesis by (metis append_prefixD)
  qed
qed

lemma siblings_incomparable:
  assumes "prefix (p @ [i]) q1" "prefix (p @ [j]) q2" "prefix q1 q2"
  shows "i = j"
proof -
  from assms obtain r1 r2 where "q1 = p @ i # r1" "q2 = p @ j # r2"
    by (auto simp: prefix_def)
  with assms(3) show ?thesis by (auto simp: prefix_def)
qed

lemma entry_paths_antichain:
  "q1 \<in> entry_paths e \<Longrightarrow> q2 \<in> entry_paths e \<Longrightarrow> prefix q1 q2 \<Longrightarrow> q1 = q2"
proof (induction e arbitrary: q1 q2 rule: entry_induct)
  case (entry e)
  show ?case
  proof (cases "entry_added e = {}")
    case False
    then have "entry_paths e = entry_added e"
      using entry_added_children[of e] by (subst entry_paths_unfold) simp
    then show ?thesis using entry.prems entry_added_subset[of e] by auto
  next
    case True
    with entry.prems obtain c1 c2 where c: "c1 \<in> set (entry_children e)" "q1 \<in> entry_paths c1"
      "c2 \<in> set (entry_children e)" "q2 \<in> entry_paths c2"
      by (subst (asm) (1 2) entry_paths_unfold) auto
    from entry_children_elem[OF c(1)] entry_children_elem[OF c(3)] obtain i j where
      ij: "c1 = (fst e @ [i], entry_groups (snd e) ! i)" "c2 = (fst e @ [j], entry_groups (snd e) ! j)"
      by blast
    have "prefix (fst e @ [i]) q1" "prefix (fst e @ [j]) q2"
      using entry_paths_prefix[OF c(2)] entry_paths_prefix[OF c(4)] ij by simp_all
    then have "i = j" using entry.prems(3) by (rule siblings_incomparable)
    then have "c1 = c2" using ij by simp
    then show ?thesis using entry.IH[OF c(1) c(2) _ entry.prems(3)] c(4) by simp
  qed
qed

lemma initial_stack_set:
  "set (initial_stack trees) \<subseteq>
     (\<lambda>i. ([] @ [i], zip_star (map tree_leaves_with_implicit trees) ! i))
       ` {..<length (zip_star (map tree_leaves_with_implicit trees))}"
  by (auto simp: initial_stack_def in_set_enumerate_eq image_iff)

lemma siblings_antichain:
  assumes "\<And>e. e \<in> set stack \<Longrightarrow> \<exists>i. e = (p @ [i], gs ! i)"
    and "q1 \<in> traverse (stack, {})" "q2 \<in> traverse (stack, {})" "prefix q1 q2"
  shows "q1 = q2"
proof -
  from assms(2,3) obtain e1 e2 where e: "e1 \<in> set stack" "q1 \<in> entry_paths e1"
      "e2 \<in> set stack" "q2 \<in> entry_paths e2"
    by (auto simp: traverse_entry_paths)
  from assms(1)[OF e(1)] assms(1)[OF e(3)] obtain i j where
    ij: "e1 = (p @ [i], gs ! i)" "e2 = (p @ [j], gs ! j)" by auto
  have "prefix (p @ [i]) q1" "prefix (p @ [j]) q2"
    using entry_paths_prefix[OF e(2)] entry_paths_prefix[OF e(4)] ij by simp_all
  then have "i = j" using assms(4) by (rule siblings_incomparable)
  then have "e1 = e2" using ij by simp
  then show ?thesis using entry_paths_antichain[OF e(2) _ assms(4)] e(4) by simp
qed

lemma common_prefix_paths_antichain:
  assumes "q1 \<in> common_prefix_paths trees" "q2 \<in> common_prefix_paths trees" "prefix q1 q2"
  shows "q1 = q2"
proof (rule siblings_antichain[OF _ assms(1,2)[unfolded common_prefix_paths_def] assms(3)])
  fix e assume "e \<in> set (initial_stack trees)"
  then show "\<exists>i. e = ([] @ [i], zip_star (map tree_leaves_with_implicit trees) ! i)"
    using initial_stack_set[of trees] by auto
qed

lemma traverse_rounds: "traverse (rounds n st) = traverse st"
proof (induction n arbitrary: st)
  case 0
  show ?case by simp
next
  case (Suc n)
  show ?case
  proof (cases "fst st = []")
    case True
    then show ?thesis by simp
  next
    case False
    then show ?thesis using Suc[of "loop_body st"] by (simp add: traverse.simps[of st])
  qed
qed

lemma rounds_subset: "snd (rounds n st) \<subseteq> traverse st"
proof -
  have "snd (rounds n st) \<subseteq> traverse (fst (rounds n st), snd (rounds n st))"
    using traverse_mono[of "fst (rounds n st)" "snd (rounds n st)"] by auto
  then show ?thesis by (simp add: traverse_rounds)
qed

lemma example_paths: "common_prefix_paths [treeA, treeB] = {[0], [1]}"
  by code_simp

lemma example_rounds: "snd (rounds 2 (initial_stack [treeA, treeB], {})) = {[0], [1]}"
  by code_simp

lemma all_equal_card:
  assumes "\<forall>n \<in> set nodes. f n = f (hd nodes)"
  shows "\<not> 1 < card (set (map f nodes))"
proof -
  have "set (map f nodes) \<subseteq> {f (hd nodes)}" using assms by auto
  then have "card (set (map f nodes)) \<le> card {f (hd nodes)}"
    by (intro card_mono) auto
  then show ?thesis by simp
qed

section \<open>Trees without implicit arrays, and identical nodes\<close>

declare implicit_depth_loop.simps [simp del]

lemma no_implicit_leaves:
  "no_implicit t \<Longrightarrow> l \<in> set (tree_leaves is_implicit t) \<Longrightarrow> \<not> is_implicit l"
  by (induction t arbitrary: l) (auto simp: list_all_iff)

lemma implicit_depth_no_implicit: "no_implicit t \<Longrightarrow> implicit_depth t = 0"
proof -
  assume "no_implicit t"
  then have "filter is_implicit (tree_leaves is_implicit t) = []"
    by (auto simp: filter_empty_conv dest: no_implicit_leaves)
  then show ?thesis
    by (simp add: implicit_depth_def wrapped_simps implicit_depth_loop.simps[of "tree_leaves is_implicit t"])
qed

lemma check_avals_None:
  "list_all2 (\<lambda>l a. get_aval l = a) ls avs \<Longrightarrow> check_avals i (zip ls avs) = None"
  by (induction ls avs rule: list_all2_induct) (simp_all add: Let_def)

lemma zip_star_pair:
  "length xs = length ys \<Longrightarrow> zip_star [xs, ys] = map (\<lambda>i. [xs ! i, ys ! i]) [0..<length xs]"
  by (simp add: zip_star_def)

lemma entry_paths_leaf: "\<not> list_ex is_implicit (snd e) \<Longrightarrow> entry_paths e = {}"
  by (subst entry_paths_unfold) (simp add: entry_added_def entry_children_def del: list_ex_iff)

lemma entry_paths_identical: "entry_paths (p, [x, x]) = {}"
proof -
  have "\<forall>p x. e = (p, [x, x]) \<longrightarrow> entry_paths e = {}" for e
  proof (induction e rule: entry_induct)
    case (entry e)
    show ?case
    proof (intro allI impI)
      fix p x assume e: "e = (p, [x, x])"
      let ?L = "fst (flatten_one_implicit_layer x)"
      have g: "entry_groups [x, x] = map (\<lambda>i. [?L ! i, ?L ! i]) [0..<length ?L]"
        by (simp add: entry_groups_def zip_star_pair)
      have nm: "\<not> (\<exists>g \<in> set (entry_groups [x, x]). group_mismatch g)"
        unfolding g by (auto simp: group_mismatch_def aval_mismatch_def)
      have st: "\<not> 1 < card (set (entry_structures [x, x]))"
        by (simp add: entry_structures_def)
      have ad: "entry_added e = {}"
        using nm st by (simp add: entry_added_def e del: list_ex_iff)
      have "entry_paths c = {}" if c: "c \<in> set (entry_children e)" for c
      proof -
        from entry_children_elem[OF c] obtain i where
          "i < length (entry_groups [x, x])" "c = (p @ [i], entry_groups [x, x] ! i)"
          by (auto simp: e)
        then have "c = (p @ [i], [?L ! i, ?L ! i])" by (simp add: g)
        with entry.IH[OF c] show ?thesis by blast
      qed
      then show "entry_paths e = {}" by (subst entry_paths_unfold) (simp add: ad)
    qed
  qed
  then show ?thesis by blast
qed

lemma map_enumerate_nth:
  "map f (enumerate 0 gs) = map (\<lambda>i. f (i, gs ! i)) [0..<length gs]"
  by (rule nth_equalityI) (simp_all add: nth_enumerate_eq)

lemma initial_stack_pair:
  "length xs = length ys \<Longrightarrow> tree_leaves_with_implicit tA = xs \<Longrightarrow> tree_leaves_with_implicit tB = ys \<Longrightarrow>
   common_prefix_paths [tA, tB] = (\<Union>i<length xs. entry_paths ([] @ [i], [xs ! i, ys ! i]))"
  unfolding common_prefix_paths_def traverse_entry_paths initial_stack_def
  by (simp add: zip_star_pair Let_def map_enumerate_nth atLeast0LessThan)

lemma common_prefix_paths_same: "common_prefix_paths [t, t] = {}"
  using initial_stack_pair[of "tree_leaves_with_implicit t" "tree_leaves_with_implicit t" t t]
  by (simp add: entry_paths_identical)

lemma check_trees_same_structure:
  "list_all2 (\<lambda>l a. get_aval l = a) lsB avs \<Longrightarrow> check_trees s avs i [(lsB, s)] = None"
  by (simp add: check_avals_None)

lemma gcpt_pair:
  assumes "tree_structure_with_implicit tA = tree_structure_with_implicit tB"
    and "list_all2 (\<lambda>l a. get_aval l = a) (tree_leaves_with_implicit tB)
           (map get_aval (tree_leaves_with_implicit tA))"
  shows "get_common_prefix_transforms [tA, tB] =
           Inr [get_pruning_transform tA (common_prefix_paths [tA, tB]),
                get_pruning_transform tB (common_prefix_paths [tA, tB])]"
  using assms check_trees_same_structure[OF assms(2), of "tree_structure is_implicit tB" 1]
  by (simp add: get_common_prefix_transforms_def wrapped_simps Let_def)

lemma gcpt_same:
  "get_common_prefix_transforms [t, t] = Inr [identity_transform, identity_transform]"
proof -
  have "list_all2 (\<lambda>l a. get_aval l = a) (tree_leaves_with_implicit t)
           (map get_aval (tree_leaves_with_implicit t))"
    by (simp add: list_all2_conv_all_nth)
  from gcpt_pair[OF refl this] show ?thesis
    by (simp add: common_prefix_paths_same get_pruning_transform_def)
qed

section \<open>Trees that differ at one path\<close>

lemma flatten_one_snd_aval:
  assumes "is_implicit x" "is_implicit y"
    and "snd (flatten_one_implicit_layer x) = snd (flatten_one_implicit_layer y)"
  shows "get_aval x = get_aval y"
proof -
  from assms(1,2) obtain a m cs a' m' cs' where
    xy: "x = ImplicitArray a m cs" "y = ImplicitArray a' m' cs'"
    by (cases x; cases y) auto
  from flatten_one_Implicit_snd[of a m cs] flatten_one_Implicit_snd[of a' m' cs'] assms(3)
  show ?thesis unfolding xy by auto
qed

lemma differs_at_avals:
  assumes "differs_at P xs ys"
  shows "length xs = length ys" and "\<forall>j<length xs. get_aval (xs ! j) = get_aval (ys ! j)"
proof -
  show "length xs = length ys" using assms by cases auto
  show "\<forall>j<length xs. get_aval (xs ! j) = get_aval (ys ! j)"
    using assms
  proof cases
    case (here i)
    then show ?thesis by (metis)
  next
    case (below i P')
    then show ?thesis by (metis flatten_one_snd_aval)
  qed
qed

lemma UN_single:
  assumes "i < n" "\<And>j. j < n \<Longrightarrow> j \<noteq> i \<Longrightarrow> F j = {}"
  shows "(\<Union>j<n. F j) = F (i::nat)"
  using assms by (auto; metis empty_iff)

lemma entry_children_paths:
  "(\<Union>c \<in> set (map (\<lambda>(i, g). (p @ [i], g)) (enumerate 0 gs)). entry_paths c)
     = (\<Union>i<length gs. entry_paths (p @ [i], gs ! i))"
  by (simp add: map_enumerate_nth atLeast0LessThan)

lemma differs_at_paths:
  "differs_at P xs ys \<Longrightarrow>
     (\<Union>i<length xs. entry_paths (pre @ [i], [xs ! i, ys ! i])) = {pre @ P}"
proof (induction arbitrary: pre rule: differs_at.induct)
  case (here xs ys i)
  let ?e = "(pre @ [i], [xs ! i, ys ! i])"
  have off: "entry_paths (pre @ [j], [xs ! j, ys ! j]) = {}" if "j < length xs" "j \<noteq> i" for j
    using that here(3) by (simp add: entry_paths_identical)
  have st: "1 < card (set (entry_structures [xs ! i, ys ! i]))"
    using here(7) by (simp add: entry_structures_def)
  have "entry_added ?e = {pre @ [i]}" "entry_children ?e = []"
    using st here(4) by (simp_all add: entry_added_def entry_children_def)
  then have "entry_paths ?e = {pre @ [i]}" by (subst entry_paths_unfold) simp
  then show ?case using UN_single[of i "length xs" "\<lambda>j. entry_paths (pre @ [j], [xs ! j, ys ! j])"]
      here(2) off by simp
next
  case (below xs ys i P)
  let ?e = "(pre @ [i], [xs ! i, ys ! i])"
  let ?Lx = "fst (flatten_one_implicit_layer (xs ! i))"
  let ?Ly = "fst (flatten_one_implicit_layer (ys ! i))"
  have off: "entry_paths (pre @ [j], [xs ! j, ys ! j]) = {}" if "j < length xs" "j \<noteq> i" for j
    using that below(3) by (simp add: entry_paths_identical)
  have len: "length ?Lx = length ?Ly" and av: "\<forall>j<length ?Lx. get_aval (?Lx ! j) = get_aval (?Ly ! j)"
    using differs_at_avals[OF below(7)] by simp_all
  have g: "entry_groups [xs ! i, ys ! i] = map (\<lambda>k. [?Lx ! k, ?Ly ! k]) [0..<length ?Lx]"
    by (simp add: entry_groups_def zip_star_pair len)
  have nm: "\<not> (\<exists>g \<in> set (entry_groups [xs ! i, ys ! i]). group_mismatch g)"
    unfolding g using av by (auto simp: group_mismatch_def aval_mismatch_def)
  have st: "\<not> 1 < card (set (entry_structures [xs ! i, ys ! i]))"
    using below(6) by (simp add: entry_structures_def)
  have ad: "entry_added ?e = {}"
    using nm st by (simp add: entry_added_def del: list_ex_iff)
  have ch: "entry_children ?e =
              map (\<lambda>(k, g). ((pre @ [i]) @ [k], g)) (enumerate 0 (entry_groups [xs ! i, ys ! i]))"
    using nm st below(4) by (simp add: entry_children_def)
  have "entry_paths ?e = (\<Union>k<length ?Lx. entry_paths ((pre @ [i]) @ [k], [?Lx ! k, ?Ly ! k]))"
    apply (subst entry_paths_unfold)
    apply (simp only: ad ch entry_children_paths)
    apply (simp add: g del: append_assoc)
    done
  also have "\<dots> = {(pre @ [i]) @ P}" by (rule below.IH)
  finally have "entry_paths ?e = {pre @ i # P}" by simp
  then show ?case using UN_single[of i "length xs" "\<lambda>j. entry_paths (pre @ [j], [xs ! j, ys ! j])"]
      below(2) off by simp
qed

section \<open>The precondition checks\<close>

lemma check_trees_structure:
  assumes "i < length rest" "snd (rest ! i) \<noteq> s0"
    and "\<forall>j<i. snd (rest ! j) = s0 \<and> map get_aval (fst (rest ! j)) = avs"
  shows "check_trees s0 avs k rest = Some ValueError_structure"
  using assms
proof (induction rest arbitrary: i k)
  case Nil
  then show ?case by simp
next
  case (Cons r rest)
  obtain ls s where r: "r = (ls, s)" by (cases r)
  show ?case
  proof (cases i)
    case 0
    then show ?thesis using Cons.prems r by simp
  next
    case (Suc i')
    from Cons.prems(3) Suc have h: "s = s0" "map get_aval ls = avs" using r by auto
    have "list_all2 (\<lambda>l a. get_aval l = a) ls avs"
      using h(2) by (auto simp: list_all2_conv_all_nth)
    then have a: "check_avals k (zip ls avs) = None" by (rule check_avals_None)
    have "check_trees s0 avs (k + 1) rest = Some ValueError_structure"
    proof (rule Cons.IH)
      show "i' < length rest" using Cons.prems(1) Suc by simp
      show "snd (rest ! i') \<noteq> s0" using Cons.prems(2) Suc by simp
      show "\<forall>j<i'. snd (rest ! j) = s0 \<and> map get_aval (fst (rest ! j)) = avs"
        using Cons.prems(3) Suc by auto
    qed
    then show ?thesis by (simp add: r h a)
  qed
qed

lemma structure_mismatch_raises:
  assumes "1 \<le> i" "i < length trees"
    and "tree_structure_with_implicit (trees ! i) \<noteq> tree_structure_with_implicit (trees ! 0)"
    and "\<forall>j. 1 \<le> j \<and> j < i \<longrightarrow>
           tree_structure_with_implicit (trees ! j) = tree_structure_with_implicit (trees ! 0) \<and>
           map get_aval (tree_leaves_with_implicit (trees ! j))
             = map get_aval (tree_leaves_with_implicit (trees ! 0))"
  shows "get_common_prefix_transforms trees = Inl ValueError_structure"
proof -
  from assms(1,2) obtain t ts where trees: "trees = t # ts" by (cases trees) auto
  let ?rest = "zip (map fst (map tree_flatten_with_implicit ts)) (map snd (map tree_flatten_with_implicit ts))"
  have rest: "?rest ! j = (tree_leaves is_implicit (ts ! j), tree_structure is_implicit (ts ! j))"
    if "j < length ts" for j using that by (simp add: wrapped_simps)
  have "check_trees (tree_structure is_implicit t) (map get_aval (tree_leaves is_implicit t)) 1 ?rest
          = Some ValueError_structure"
  proof (rule check_trees_structure[where i = "i - 1"])
    show "i - 1 < length ?rest" using assms(1,2) trees by simp
    show "snd (?rest ! (i - 1)) \<noteq> tree_structure is_implicit t"
      using assms(1,2,3) trees by (simp add: rest wrapped_simps nth_Cons')
    show "\<forall>j<i - 1. snd (?rest ! j) = tree_structure is_implicit t \<and>
            map get_aval (fst (?rest ! j)) = map get_aval (tree_leaves is_implicit t)"
    proof (intro allI impI)
      fix j assume j: "j < i - 1"
      then have "j < length ts" using assms(2) trees by simp
      moreover from assms(4)[rule_format, of "Suc j"] j
      have "tree_structure is_implicit (ts ! j) = tree_structure is_implicit t \<and>
            map get_aval (tree_leaves is_implicit (ts ! j)) = map get_aval (tree_leaves is_implicit t)"
        by (simp add: trees wrapped_simps)
      ultimately show "snd (?rest ! j) = tree_structure is_implicit t \<and>
            map get_aval (fst (?rest ! j)) = map get_aval (tree_leaves is_implicit t)"
        by (simp add: wrapped_simps)
    qed
  qed
  moreover have "\<not> length trees \<le> 1" using assms(1,2) by simp
  ultimately show ?thesis
    by (simp add: get_common_prefix_transforms_def trees Let_def wrapped_simps)
qed

section \<open>The work set in another order\<close>

lemma group_mismatch_iff:
  "group_mismatch g \<longleftrightarrow> (\<exists>x \<in> set g. get_aval x \<noteq> get_aval (hd g))"
proof (cases g)
  case Nil
  then show ?thesis by (simp add: group_mismatch_def)
next
  case (Cons a as)
  have "aval_mismatch (get_aval a) x \<longleftrightarrow> get_aval x \<noteq> get_aval a" for x
    unfolding aval_mismatch_def by (cases "get_aval x"; cases "get_aval a") auto
  then show ?thesis by (simp add: group_mismatch_def Cons)
qed

lemma descriptors_equal_iff:
  "(\<forall>d \<in> set ds. d = hd ds) \<longleftrightarrow> \<not> 1 < card (set ds)"
proof
  assume "\<forall>d \<in> set ds. d = hd ds"
  then show "\<not> 1 < card (set ds)" using all_equal_card[of ds "\<lambda>d. d"] by simp
next
  assume h: "\<not> 1 < card (set ds)"
  show "\<forall>d \<in> set ds. d = hd ds"
  proof
    fix d assume d: "d \<in> set ds"
    then have "hd ds \<in> set ds" by (cases ds) auto
    with h d show "d = hd ds" by (rule card_le_one_all_eq)
  qed
qed

lemma spec_process_eq: "spec_process e = (entry_children e, entry_added e)"
proof -
  obtain p nodes where e: "e = (p, nodes)" by (cases e)
  have m: "map snd (map flatten_one_implicit_layer nodes) = entry_structures nodes"
    "map fst (map flatten_one_implicit_layer nodes) = map (\<lambda>n. fst (flatten_one_implicit_layer n)) nodes"
    by (simp_all add: entry_structures_def)
  show ?thesis
    unfolding spec_process_def e prod.case Let_def m descriptors_equal_iff
      entry_groups_def[symmetric] group_mismatch_iff[symmetric]
    by (simp add: entry_children_def entry_added_def list_ex_iff)
qed

termination traverse_queue
proof (relation "measure (\<lambda>st. sum_list (map entry_weight (fst st)))", goal_cases)
  case 1
  show ?case by simp
next
  case (2 st)
  then obtain e r where q: "fst st = e # r" by (cases "fst st") auto
  have "sum_list (map entry_weight (entry_children e)) < entry_weight e"
    using entry_children_weight[of e] entry_weight_pos[of e]
    by (cases "entry_children e = []") auto
  then show ?case by (simp add: q spec_process_eq)
qed

declare traverse_queue.simps [simp del]

lemma traverse_queue_Nil: "traverse_queue ([], mp) = mp"
  by (simp add: traverse_queue.simps)

lemma traverse_queue_Cons:
  "traverse_queue (e # r, mp) = traverse_queue (r @ entry_children e, mp \<union> entry_added e)"
  by (subst traverse_queue.simps) (simp add: spec_process_eq)

lemma queue_induct [case_names Nil Cons]:
  assumes "P []"
    and "\<And>e r. P (r @ entry_children e) \<Longrightarrow> P (e # r)"
  shows "P q"
proof (induction q rule: measure_induct_rule[where f = "\<lambda>s. sum_list (map entry_weight s)"])
  case (less s)
  show ?case
  proof (cases s)
    case Nil
    then show ?thesis using assms(1) by simp
  next
    case (Cons e r)
    have "sum_list (map entry_weight (entry_children e)) < entry_weight e"
      using entry_children_weight[of e] entry_weight_pos[of e]
      by (cases "entry_children e = []") auto
    then have "P (r @ entry_children e)" by (intro less) (simp add: Cons)
    then show ?thesis unfolding Cons by (rule assms(2))
  qed
qed

lemma traverse_queue_entry_paths:
  "traverse_queue (q, mp) = mp \<union> (\<Union>e \<in> set q. entry_paths e)"
proof (induction q arbitrary: mp rule: queue_induct)
  case Nil
  show ?case by (simp add: traverse_queue_Nil)
next
  case (Cons e r)
  have "traverse_queue (e # r, mp) =
          (mp \<union> entry_added e) \<union> (\<Union>c \<in> set (r @ entry_children e). entry_paths c)"
    unfolding traverse_queue_Cons by (rule Cons)
  also have "\<dots> = mp \<union> (entry_added e \<union> (\<Union>c \<in> set (entry_children e). entry_paths c))
                     \<union> (\<Union>c \<in> set r. entry_paths c)"
    by auto
  also have "entry_added e \<union> (\<Union>c \<in> set (entry_children e). entry_paths c) = entry_paths e"
    by (rule entry_paths_unfold[symmetric])
  finally show ?case by auto
qed

lemma work_step_invariant:
  assumes "work_step s s'"
  shows "snd s' \<union> (\<Union>e \<in> set_mset (fst s'). entry_paths e)
           = snd s \<union> (\<Union>e \<in> set_mset (fst s). entry_paths e)"
  using assms
proof cases
  case (take e W M)
  have W: "set_mset W = insert e (set_mset (W - {#e#}))"
    using take(3) by (metis insert_DiffM set_mset_add_mset_insert)
  have "(\<Union>c \<in> set_mset (W - {#e#} + mset (entry_children e)). entry_paths c) \<union> entry_added e
          = (\<Union>c \<in> set_mset (W - {#e#}). entry_paths c) \<union> entry_paths e"
    by (subst (2) entry_paths_unfold) auto
  also have "\<dots> = (\<Union>c \<in> insert e (set_mset (W - {#e#})). entry_paths c)"
    by auto
  also have "\<dots> = (\<Union>c \<in> set_mset W. entry_paths c)"
    by (simp only: W[symmetric])
  finally show ?thesis unfolding take(1,2) by (auto simp: spec_process_eq)
qed

lemma work_steps_invariant:
  assumes "work_step\<^sup>*\<^sup>* s s'"
  shows "snd s' \<union> (\<Union>e \<in> set_mset (fst s'). entry_paths e)
           = snd s \<union> (\<Union>e \<in> set_mset (fst s). entry_paths e)"
  using assms
proof (induction rule: rtranclp_induct)
  case base
  show ?case by simp
next
  case (step y z)
  show ?case using work_step_invariant[OF step(2)] step(3) by simp
qed

lemma any_order_result:
  assumes "work_step\<^sup>*\<^sup>* (mset stack, mp) ({#}, M')"
  shows "M' = traverse (stack, mp)"
  using work_steps_invariant[OF assms] by (simp add: traverse_entry_paths)

section \<open>The materialization loop and the one-layer expansion\<close>

lemma materialize_f_result:
  assumes "materialize_f mat path node = Some r"
  shows "set (snd r) \<subseteq> {path} \<and> \<not> is_implicit (fst r) \<and> (\<not> is_implicit node \<longrightarrow> r = (node, []))
         \<and> ((\<forall>n. is_implicit n \<longrightarrow> \<not> is_container (mat n)) \<longrightarrow> \<not> is_container node
              \<longrightarrow> \<not> is_container (fst r))"
proof -
  let ?P = "\<lambda>(mat :: tree \<Rightarrow> tree) (path :: path) (node :: tree) (r :: tree \<times> path list).
      set (snd r) \<subseteq> {path} \<and> \<not> is_implicit (fst r) \<and> (\<not> is_implicit node \<longrightarrow> r = (node, []))
         \<and> ((\<forall>n. is_implicit n \<longrightarrow> \<not> is_container (mat n)) \<longrightarrow> \<not> is_container node
              \<longrightarrow> \<not> is_container (fst r))"
  show ?thesis
  proof (rule materialize_f.raw_induct[where P = ?P, OF _ assms])
    fix g :: "(tree \<Rightarrow> tree) \<Rightarrow> path \<Rightarrow> tree \<Rightarrow> tree traced"
      and mt :: "tree \<Rightarrow> tree" and pt :: path and nd :: tree and res :: "tree \<times> path list"
    assume IH: "\<And>mt pt nd res. g mt pt nd = Some res \<Longrightarrow> ?P mt pt nd res"
      and eq: "(if is_implicit nd
                then Option.bind (g mt pt (mt nd)) (\<lambda>(y, calls). Some (y, pt # calls))
                else Some (nd, [])) = Some res"
    show "?P mt pt nd res"
    proof (cases "is_implicit nd")
      case False
      with eq have "res = (nd, [])" by simp
      then show ?thesis using False by simp
    next
      case True
      with eq obtain r' where r': "g mt pt (mt nd) = Some r'" "res = (fst r', pt # snd r')"
        by (auto simp: Option.bind_eq_Some_conv)
      from IH[OF r'(1)] True show ?thesis by (auto simp: r'(2))
    qed
  qed
qed

lemma materialize_f_concrete: "\<not> is_implicit node \<Longrightarrow> materialize_f mat path node = Some (node, [])"
  by (subst materialize_f.simps) simp

lemma materialize_f_total:
  "\<not> is_implicit ((mat ^^ k) node) \<Longrightarrow> \<exists>r. materialize_f mat path node = Some r"
proof (induction k arbitrary: node)
  case 0
  then show ?case by (simp add: materialize_f_concrete)
next
  case (Suc k)
  show ?case
  proof (cases "is_implicit node")
    case False
    then show ?thesis by (simp add: materialize_f_concrete)
  next
    case True
    from Suc.prems have "\<not> is_implicit ((mat ^^ k) (mat node))" by (simp add: funpow_swap1)
    from Suc.IH[OF this] obtain r where "materialize_f mat path (mat node) = Some r" by blast
    then show ?thesis using True by (subst materialize_f.simps) (auto split: prod.splits)
  qed
qed

lemma leaves_agree:
  "(\<And>x. weight x \<le> weight t \<Longrightarrow> p x = q x) \<Longrightarrow>
     tree_leaves p t = tree_leaves q t \<and> tree_structure p t = tree_structure q t"
proof (induction t)
  case (Arr m v)
  show ?case by simp
next
  case (ImplicitArray a m cs)
  have "tree_leaves p c = tree_leaves q c \<and> tree_structure p c = tree_structure q c"
    if c: "c \<in> set cs" for c
  proof (rule ImplicitArray.IH[OF c])
    fix x assume "weight x \<le> weight c"
    moreover have "weight c \<le> sum_list (map weight cs)" using c by (simp add: member_le_sum_list)
    ultimately show "p x = q x" by (intro ImplicitArray.prems) simp
  qed
  then have "map (tree_leaves p) cs = map (tree_leaves q) cs"
    "map (tree_structure p) cs = map (tree_structure q) cs" by simp_all
  moreover have "p (ImplicitArray a m cs) = q (ImplicitArray a m cs)"
    by (rule ImplicitArray.prems) simp
  ultimately show ?case by (simp only: tree_leaves.simps tree_structure.simps)
next
  case (Node k cs)
  have "tree_leaves p c = tree_leaves q c \<and> tree_structure p c = tree_structure q c"
    if c: "c \<in> set cs" for c
  proof (rule Node.IH[OF c])
    fix x assume "weight x \<le> weight c"
    moreover have "weight c \<le> sum_list (map weight cs)" using c by (simp add: member_le_sum_list)
    ultimately show "p x = q x" by (intro Node.prems) simp
  qed
  then have "map (tree_leaves p) cs = map (tree_leaves q) cs"
    "map (tree_structure p) cs = map (tree_structure q) cs" by simp_all
  moreover have "p (Node k cs) = q (Node k cs)"
    by (rule Node.prems) simp
  ultimately show ?case by (simp only: tree_leaves.simps tree_structure.simps)
qed

lemma below_node_child:
  assumes "c \<in> set cs"
  shows "tree_leaves (is_leaf_below_node (ImplicitArray a m cs)) c = tree_leaves is_implicit c"
    and "tree_structure (is_leaf_below_node (ImplicitArray a m cs)) c = tree_structure is_implicit c"
proof -
  have "is_leaf_below_node (ImplicitArray a m cs) x = is_implicit x" if "weight x \<le> weight c" for x
  proof -
    have "weight c \<le> sum_list (map weight cs)" using assms by (simp add: member_le_sum_list)
    with that have "weight x < weight (ImplicitArray a m cs)" by simp
    then have "x \<noteq> ImplicitArray a m cs" by auto
    then show ?thesis by (simp add: is_leaf_below_node_def)
  qed
  from leaves_agree[of c "is_leaf_below_node (ImplicitArray a m cs)" is_implicit, OF this]
  show "tree_leaves (is_leaf_below_node (ImplicitArray a m cs)) c = tree_leaves is_implicit c"
    and "tree_structure (is_leaf_below_node (ImplicitArray a m cs)) c = tree_structure is_implicit c"
    by simp_all
qed

lemma structure_of_prototype:
  "tree_structure (\<lambda>_. False) (tree_map (\<lambda>_. one) p t) = tree_structure p t"
  by (induction t) (simp_all add: one_def)

lemma flatten_one_Implicit:
  "flatten_one_implicit_layer (ImplicitArray a m cs) =
     (concat (map (tree_leaves is_implicit) cs), ImplicitDef a m (map (tree_structure is_implicit) cs))"
proof -
  have l: "map (tree_leaves (is_leaf_below_node (ImplicitArray a m cs))) cs = map (tree_leaves is_implicit) cs"
    by (simp add: below_node_child)
  have "snd (flatten_one_implicit_layer (ImplicitArray a m cs)) =
          ImplicitDef a m (map (tree_structure (is_leaf_below_node (ImplicitArray a m cs))) cs)"
    by (simp add: flatten_one_implicit_layer_def wrapped_simps replace_subtree_implicits_def
        is_leaf_below_node_def[of "ImplicitArray a m cs" "ImplicitArray a m cs"] structure_of_prototype)
  also have "map (tree_structure (is_leaf_below_node (ImplicitArray a m cs))) cs
               = map (tree_structure is_implicit) cs"
    by (simp add: below_node_child)
  finally show ?thesis using flatten_one_Implicit_fst[of a m cs] l
    by (simp add: prod_eq_iff)
qed

lemma leaves_not_container: "l \<in> set (tree_leaves is_implicit t) \<Longrightarrow> \<not> is_container l"
  by (induction t arbitrary: l) (auto split: if_splits)

section \<open>Unflattening\<close>

lemma unflatten_roundtrip:
  "unflatten_from (tree_structure p t) (tree_leaves p t @ rest) = Some (t, rest)"
  "unflatten_children (map (tree_structure p) ts) (concat (map (tree_leaves p) ts) @ rest) = Some (ts, rest)"
proof -
  have a: "\<forall>rest. unflatten_children (map (tree_structure p) cs) (concat (map (tree_leaves p) cs) @ rest)
             = Some (cs, rest)"
    if "\<And>c. c \<in> set cs \<Longrightarrow> \<forall>rest. unflatten_from (tree_structure p c) (tree_leaves p c @ rest) = Some (c, rest)"
    for cs using that by (induction cs) simp_all
  have b: "\<forall>rest. unflatten_from (tree_structure p t) (tree_leaves p t @ rest) = Some (t, rest)" for t
  proof (induction t)
    case (Arr m v)
    show ?case by simp
  next
    case (ImplicitArray a m cs)
    from a[OF ImplicitArray.IH] show ?case by simp
  next
    case (Node k cs)
    from a[OF Node.IH] show ?case by simp
  qed
  show "unflatten_from (tree_structure p t) (tree_leaves p t @ rest) = Some (t, rest)"
    using b by blast
  show "unflatten_children (map (tree_structure p) ts) (concat (map (tree_leaves p) ts) @ rest) = Some (ts, rest)"
    using a[of ts] b by blast
qed

lemma flatten_one_roundtrip:
  assumes "is_implicit leaf"
  shows "tree_unflatten (snd (flatten_one_implicit_layer leaf)) (fst (flatten_one_implicit_layer leaf))
           = Some leaf"
proof -
  from assms obtain a m cs where l: "leaf = ImplicitArray a m cs" by (cases leaf) auto
  show ?thesis
    unfolding l flatten_one_Implicit tree_unflatten_def
    using unflatten_roundtrip(2)[of is_implicit cs "[]"] by simp
qed

text \<open>Filling a descriptor with as many new leaves as the tree has.\<close>

lemma unflatten_replace_children:
  assumes "\<And>c. c \<in> set cs \<Longrightarrow> \<forall>ys rest. length ys = length (tree_leaves is_implicit c) \<longrightarrow>
             (\<exists>c'. unflatten_from (tree_structure is_implicit c) (ys @ rest) = Some (c', rest) \<and>
                ((\<forall>y \<in> set ys. \<not> is_container y) \<longrightarrow>
                   tree_leaves is_implicit c' = ys \<and>
                   tree_structure is_implicit c' = tree_structure is_implicit c))"
  shows "\<forall>ys rest. length ys = length (concat (map (tree_leaves is_implicit) cs)) \<longrightarrow>
           (\<exists>cs'. unflatten_children (map (tree_structure is_implicit) cs) (ys @ rest) = Some (cs', rest) \<and>
              ((\<forall>y \<in> set ys. \<not> is_container y) \<longrightarrow>
                 concat (map (tree_leaves is_implicit) cs') = ys \<and>
                 map (tree_structure is_implicit) cs' = map (tree_structure is_implicit) cs))"
  using assms
proof (induction cs)
  case Nil
  show ?case by simp
next
  case (Cons c cs)
  show ?case
  proof (intro allI impI)
    fix ys rest :: "tree list"
    assume len: "length ys = length (concat (map (tree_leaves is_implicit) (c # cs)))"
    let ?n = "length (tree_leaves is_implicit c)"
    let ?y1 = "take ?n ys" and ?y2 = "drop ?n ys"
    have l1: "length ?y1 = ?n" and l2: "length ?y2 = length (concat (map (tree_leaves is_implicit) cs))"
      using len by simp_all
    have "c \<in> set (c # cs)" by simp
    from Cons.prems[OF this, rule_format, OF l1, of "?y2 @ rest"] obtain c' where
      c': "unflatten_from (tree_structure is_implicit c) (?y1 @ ?y2 @ rest) = Some (c', ?y2 @ rest)"
        "(\<forall>y \<in> set ?y1. \<not> is_container y) \<longrightarrow>
             tree_leaves is_implicit c' = ?y1 \<and> tree_structure is_implicit c' = tree_structure is_implicit c"
      by blast
    have "\<forall>ys rest. length ys = length (concat (map (tree_leaves is_implicit) cs)) \<longrightarrow>
           (\<exists>cs'. unflatten_children (map (tree_structure is_implicit) cs) (ys @ rest) = Some (cs', rest) \<and>
              ((\<forall>y \<in> set ys. \<not> is_container y) \<longrightarrow>
                 concat (map (tree_leaves is_implicit) cs') = ys \<and>
                 map (tree_structure is_implicit) cs' = map (tree_structure is_implicit) cs))"
      by (rule Cons.IH) (use Cons.prems in auto)
    from this[rule_format, OF l2, of rest] obtain cs' where
      cs': "unflatten_children (map (tree_structure is_implicit) cs) (?y2 @ rest) = Some (cs', rest)"
        "(\<forall>y \<in> set ?y2. \<not> is_container y) \<longrightarrow>
             concat (map (tree_leaves is_implicit) cs') = ?y2 \<and>
             map (tree_structure is_implicit) cs' = map (tree_structure is_implicit) cs"
      by blast
    have ys: "ys @ rest = ?y1 @ ?y2 @ rest" by simp
    have u: "unflatten_children (map (tree_structure is_implicit) (c # cs)) (ys @ rest)
               = Some (c' # cs', rest)"
      unfolding ys using c'(1) cs'(1) by simp
    have "concat (map (tree_leaves is_implicit) (c' # cs')) = ys \<and>
          map (tree_structure is_implicit) (c' # cs') = map (tree_structure is_implicit) (c # cs)"
      if nc: "\<forall>y \<in> set ys. \<not> is_container y"
    proof -
      have "\<forall>y \<in> set ?y1. \<not> is_container y" "\<forall>y \<in> set ?y2. \<not> is_container y"
        using nc by (auto dest: in_set_takeD in_set_dropD)
      with c'(2) cs'(2) have "tree_leaves is_implicit c' = ?y1" "concat (map (tree_leaves is_implicit) cs') = ?y2"
        "tree_structure is_implicit c' = tree_structure is_implicit c"
        "map (tree_structure is_implicit) cs' = map (tree_structure is_implicit) cs"
        by blast+
      then show ?thesis by simp
    qed
    with u show "\<exists>cs'. unflatten_children (map (tree_structure is_implicit) (c # cs)) (ys @ rest) = Some (cs', rest) \<and>
              ((\<forall>y \<in> set ys. \<not> is_container y) \<longrightarrow>
                 concat (map (tree_leaves is_implicit) cs') = ys \<and>
                 map (tree_structure is_implicit) cs' = map (tree_structure is_implicit) (c # cs))"
      by blast
  qed
qed

lemma unflatten_replace:
  "\<forall>ys rest. length ys = length (tree_leaves is_implicit t) \<longrightarrow>
     (\<exists>t'. unflatten_from (tree_structure is_implicit t) (ys @ rest) = Some (t', rest) \<and>
        ((\<forall>y \<in> set ys. \<not> is_container y) \<longrightarrow>
           tree_leaves is_implicit t' = ys \<and>
           tree_structure is_implicit t' = tree_structure is_implicit t))"
proof (induction t)
  case (Arr m v)
  show ?case
  proof (intro allI impI)
    fix ys :: "tree list" and rest assume "length ys = length (tree_leaves is_implicit (Arr m v))"
    then obtain y where ys: "ys = [y]" by (cases ys) auto
    show "\<exists>t'. unflatten_from (tree_structure is_implicit (Arr m v)) (ys @ rest) = Some (t', rest) \<and>
        ((\<forall>y \<in> set ys. \<not> is_container y) \<longrightarrow>
           tree_leaves is_implicit t' = ys \<and>
           tree_structure is_implicit t' = tree_structure is_implicit (Arr m v))"
      unfolding ys by (cases y) simp_all
  qed
next
  case (ImplicitArray a m cs)
  show ?case
  proof (intro allI impI)
    fix ys :: "tree list" and rest assume "length ys = length (tree_leaves is_implicit (ImplicitArray a m cs))"
    then obtain y where ys: "ys = [y]" by (cases ys) auto
    show "\<exists>t'. unflatten_from (tree_structure is_implicit (ImplicitArray a m cs)) (ys @ rest) = Some (t', rest) \<and>
        ((\<forall>y \<in> set ys. \<not> is_container y) \<longrightarrow>
           tree_leaves is_implicit t' = ys \<and>
           tree_structure is_implicit t' = tree_structure is_implicit (ImplicitArray a m cs))"
      unfolding ys by (cases y) simp_all
  qed
next
  case (Node k cs)
  show ?case
  proof (intro allI impI)
    fix ys :: "tree list" and rest assume "length ys = length (tree_leaves is_implicit (Node k cs))"
    then have len: "length ys = length (concat (map (tree_leaves is_implicit) cs))" by simp
    have "\<forall>ys rest. length ys = length (concat (map (tree_leaves is_implicit) cs)) \<longrightarrow>
           (\<exists>cs'. unflatten_children (map (tree_structure is_implicit) cs) (ys @ rest) = Some (cs', rest) \<and>
              ((\<forall>y \<in> set ys. \<not> is_container y) \<longrightarrow>
                 concat (map (tree_leaves is_implicit) cs') = ys \<and>
                 map (tree_structure is_implicit) cs' = map (tree_structure is_implicit) cs))"
      by (rule unflatten_replace_children) (rule Node.IH)
    from this[rule_format, OF len, of rest] obtain cs' where
      cs': "unflatten_children (map (tree_structure is_implicit) cs) (ys @ rest) = Some (cs', rest)"
        "(\<forall>y \<in> set ys. \<not> is_container y) \<longrightarrow>
             concat (map (tree_leaves is_implicit) cs') = ys \<and>
             map (tree_structure is_implicit) cs' = map (tree_structure is_implicit) cs"
      by blast
    have "unflatten_from (tree_structure is_implicit (Node k cs)) (ys @ rest) = Some (Node k cs', rest)"
      using cs'(1) by simp
    moreover have "(\<forall>y \<in> set ys. \<not> is_container y) \<longrightarrow>
           tree_leaves is_implicit (Node k cs') = ys \<and>
           tree_structure is_implicit (Node k cs') = tree_structure is_implicit (Node k cs)"
      using cs'(2) by simp
    ultimately show "\<exists>t'. unflatten_from (tree_structure is_implicit (Node k cs)) (ys @ rest) = Some (t', rest) \<and>
        ((\<forall>y \<in> set ys. \<not> is_container y) \<longrightarrow>
           tree_leaves is_implicit t' = ys \<and>
           tree_structure is_implicit t' = tree_structure is_implicit (Node k cs))"
      by blast
  qed
qed

section \<open>The pruning transform\<close>

lemma leaves_induct [case_names Nil Cons]:
  assumes "\<And>pre idx. P pre idx []"
    and "\<And>pre idx leaf rest.
           (is_implicit leaf \<Longrightarrow> P (pre @ [idx]) 0 (fst (flatten_one_implicit_layer leaf))) \<Longrightarrow>
           P pre (Suc idx) rest \<Longrightarrow> P pre idx (leaf # rest)"
  shows "P pre idx leaves"
proof (induction leaves arbitrary: pre idx
    rule: measure_induct_rule[where f = "\<lambda>ls. sum_list (map weight ls)"])
  case (less ls)
  show ?case
  proof (cases ls)
    case Nil
    then show ?thesis using assms(1) by simp
  next
    case (Cons leaf rest)
    have "P pre (Suc idx) rest"
      by (rule less) (use weight_pos[of leaf] in \<open>simp add: Cons\<close>)
    moreover have "P (pre @ [idx]) 0 (fst (flatten_one_implicit_layer leaf))" if "is_implicit leaf"
      by (rule less) (use weight_flatten_one[OF that] in \<open>simp add: Cons\<close>)
    ultimately show ?thesis unfolding Cons by (intro assms(2))
  qed
qed

lemma prune_leaves_Nil: "prune_leaves mat paths pre idx [] = Some ([], [])"
  by (simp add: prune_leaves_def)

lemma prune_leaves_Cons:
  "prune_leaves mat paths pre idx (leaf # rest) =
     (case (if \<not> is_implicit leaf \<or> pre @ [idx] \<in> paths then materialize_f mat (pre @ [idx]) leaf
            else
              (case prune_leaves mat paths (pre @ [idx]) 0 (fst (flatten_one_implicit_layer leaf)) of
                 None \<Rightarrow> None
               | Some (ms, calls) \<Rightarrow>
                   (case tree_unflatten (snd (flatten_one_implicit_layer leaf)) ms of
                      None \<Rightarrow> None
                    | Some t \<Rightarrow> Some (t, calls))))
      of None \<Rightarrow> None
       | Some (y, calls) \<Rightarrow>
           (case prune_leaves mat paths pre (Suc idx) rest of
              None \<Rightarrow> None
            | Some (ys, calls') \<Rightarrow> Some (y # ys, calls @ calls')))"
  unfolding prune_leaves_def map_leaves_from.simps Let_def Suc_eq_plus1 by (rule refl)

lemma prune_leaves_ConsE:
  assumes "prune_leaves mat paths pre idx (leaf # rest) = Some (out, calls)"
  shows "\<exists>y c1 ys c2. out = y # ys \<and> calls = c1 @ c2 \<and>
    prune_leaves mat paths pre (Suc idx) rest = Some (ys, c2) \<and>
    (\<not> is_implicit leaf \<or> pre @ [idx] \<in> paths \<longrightarrow> materialize_f mat (pre @ [idx]) leaf = Some (y, c1)) \<and>
    (is_implicit leaf \<and> pre @ [idx] \<notin> paths \<longrightarrow>
       (\<exists>ms. prune_leaves mat paths (pre @ [idx]) 0 (fst (flatten_one_implicit_layer leaf)) = Some (ms, c1) \<and>
            tree_unflatten (snd (flatten_one_implicit_layer leaf)) ms = Some y))"
proof -
  let ?sub = "case prune_leaves mat paths (pre @ [idx]) 0 (fst (flatten_one_implicit_layer leaf)) of
                 None \<Rightarrow> None
               | Some (ms, calls) \<Rightarrow>
                   (case tree_unflatten (snd (flatten_one_implicit_layer leaf)) ms of
                      None \<Rightarrow> None
                    | Some t \<Rightarrow> Some (t, calls))"
  let ?first = "if \<not> is_implicit leaf \<or> pre @ [idx] \<in> paths
                then materialize_f mat (pre @ [idx]) leaf else ?sub"
  have eq: "(case ?first of None \<Rightarrow> None
             | Some (y, calls) \<Rightarrow>
                (case prune_leaves mat paths pre (Suc idx) rest of
                   None \<Rightarrow> None
                 | Some (ys, calls') \<Rightarrow> Some (y # ys, calls @ calls'))) = Some (out, calls)"
    using assms unfolding prune_leaves_Cons .
  then obtain y c1 where f: "?first = Some (y, c1)"
    by (cases ?first) auto
  from eq obtain ys c2 where r: "prune_leaves mat paths pre (Suc idx) rest = Some (ys, c2)"
    unfolding f by (cases "prune_leaves mat paths pre (Suc idx) rest") auto
  from eq have oc: "out = y # ys" "calls = c1 @ c2" unfolding f r by simp_all
  have m: "materialize_f mat (pre @ [idx]) leaf = Some (y, c1)"
    if "\<not> is_implicit leaf \<or> pre @ [idx] \<in> paths"
    using f that by (simp only: if_True)
  have s: "\<exists>ms. prune_leaves mat paths (pre @ [idx]) 0 (fst (flatten_one_implicit_layer leaf)) = Some (ms, c1) \<and>
            tree_unflatten (snd (flatten_one_implicit_layer leaf)) ms = Some y"
    if "is_implicit leaf \<and> pre @ [idx] \<notin> paths"
  proof -
    from that have "\<not> (\<not> is_implicit leaf \<or> pre @ [idx] \<in> paths)" by simp
    with f have sub: "?sub = Some (y, c1)" by (simp only: if_False)
    then obtain ms c where ms: "prune_leaves mat paths (pre @ [idx]) 0 (fst (flatten_one_implicit_layer leaf)) = Some (ms, c)"
      by (cases "prune_leaves mat paths (pre @ [idx]) 0 (fst (flatten_one_implicit_layer leaf))") auto
    from sub obtain t where t: "tree_unflatten (snd (flatten_one_implicit_layer leaf)) ms = Some t"
      unfolding ms by (cases "tree_unflatten (snd (flatten_one_implicit_layer leaf)) ms") auto
    have "t = y" "c = c1" using sub by (simp_all add: ms t)
    with ms t show ?thesis by simp
  qed
  from oc r m s show ?thesis by blast
qed

lemma rebuild_implicit:
  assumes "is_implicit leaf" "length ms = length (fst (flatten_one_implicit_layer leaf))"
  shows "\<exists>y. tree_unflatten (snd (flatten_one_implicit_layer leaf)) ms = Some y \<and> is_implicit y \<and>
              get_aval y = get_aval leaf \<and>
              ((\<forall>m \<in> set ms. \<not> is_container m) \<longrightarrow>
                 fst (flatten_one_implicit_layer y) = ms \<and>
                 snd (flatten_one_implicit_layer y) = snd (flatten_one_implicit_layer leaf))"
proof -
  from assms(1) obtain a m cs where l: "leaf = ImplicitArray a m cs" by (cases leaf) auto
  have len: "length ms = length (concat (map (tree_leaves is_implicit) cs))"
    using assms(2) by (simp add: l flatten_one_Implicit)
  have "\<forall>ys rest. length ys = length (concat (map (tree_leaves is_implicit) cs)) \<longrightarrow>
           (\<exists>cs'. unflatten_children (map (tree_structure is_implicit) cs) (ys @ rest) = Some (cs', rest) \<and>
              ((\<forall>y \<in> set ys. \<not> is_container y) \<longrightarrow>
                 concat (map (tree_leaves is_implicit) cs') = ys \<and>
                 map (tree_structure is_implicit) cs' = map (tree_structure is_implicit) cs))"
    by (rule unflatten_replace_children) (rule unflatten_replace)
  from this[rule_format, OF len, of "[]"] obtain cs' where
    cs': "unflatten_children (map (tree_structure is_implicit) cs) ms = Some (cs', [])"
      "(\<forall>y \<in> set ms. \<not> is_container y) \<longrightarrow>
         concat (map (tree_leaves is_implicit) cs') = ms \<and>
         map (tree_structure is_implicit) cs' = map (tree_structure is_implicit) cs"
    by auto
  have "tree_unflatten (snd (flatten_one_implicit_layer leaf)) ms = Some (ImplicitArray a m cs')"
    using cs'(1) by (simp add: l flatten_one_Implicit tree_unflatten_def)
  then show ?thesis using cs'(2) by (simp add: l flatten_one_Implicit)
qed

lemma prune_leaves_calls:
  "prune_leaves mat paths pre idx leaves = Some (out, calls) \<Longrightarrow> set calls \<subseteq> paths"
proof (induction pre idx leaves arbitrary: out calls rule: leaves_induct)
  case (Nil pre idx)
  then show ?case by (simp add: prune_leaves_Nil)
next
  case (Cons pre idx leaf rest)
  from prune_leaves_ConsE[OF Cons.prems] obtain y c1 ys c2 where o: "out = y # ys" "calls = c1 @ c2"
    "prune_leaves mat paths pre (Suc idx) rest = Some (ys, c2)"
    "\<not> is_implicit leaf \<or> pre @ [idx] \<in> paths \<longrightarrow> materialize_f mat (pre @ [idx]) leaf = Some (y, c1)"
    "is_implicit leaf \<and> pre @ [idx] \<notin> paths \<longrightarrow>
       (\<exists>ms. prune_leaves mat paths (pre @ [idx]) 0 (fst (flatten_one_implicit_layer leaf)) = Some (ms, c1) \<and>
            tree_unflatten (snd (flatten_one_implicit_layer leaf)) ms = Some y)"
    by blast
  have c2: "set c2 \<subseteq> paths" by (rule Cons.IH(2)[OF o(3)])
  have c1: "set c1 \<subseteq> paths"
  proof (cases "\<not> is_implicit leaf \<or> pre @ [idx] \<in> paths")
    case True
    from materialize_f_result[OF o(4)[rule_format, OF True]] True show ?thesis by auto
  next
    case False
    with o(5) obtain ms where
      "prune_leaves mat paths (pre @ [idx]) 0 (fst (flatten_one_implicit_layer leaf)) = Some (ms, c1)"
      by auto
    from Cons.IH(1)[OF _ this] False show ?thesis by simp
  qed
  show ?case using c1 c2 by (simp add: o(2))
qed

lemma prune_leaves_length:
  "prune_leaves mat paths pre idx leaves = Some (out, calls) \<Longrightarrow>
     length out = length leaves \<and>
     ((\<forall>n. is_implicit n \<longrightarrow> \<not> is_container (mat n)) \<longrightarrow> (\<forall>l \<in> set leaves. \<not> is_container l)
        \<longrightarrow> (\<forall>y \<in> set out. \<not> is_container y))"
proof (induction pre idx leaves arbitrary: out calls rule: leaves_induct)
  case (Nil pre idx)
  then show ?case by (simp add: prune_leaves_Nil)
next
  case (Cons pre idx leaf rest)
  from prune_leaves_ConsE[OF Cons.prems] obtain y c1 ys c2 where o: "out = y # ys" "calls = c1 @ c2"
    "prune_leaves mat paths pre (Suc idx) rest = Some (ys, c2)"
    "\<not> is_implicit leaf \<or> pre @ [idx] \<in> paths \<longrightarrow> materialize_f mat (pre @ [idx]) leaf = Some (y, c1)"
    "is_implicit leaf \<and> pre @ [idx] \<notin> paths \<longrightarrow>
       (\<exists>ms. prune_leaves mat paths (pre @ [idx]) 0 (fst (flatten_one_implicit_layer leaf)) = Some (ms, c1) \<and>
            tree_unflatten (snd (flatten_one_implicit_layer leaf)) ms = Some y)"
    by blast
  note ih = Cons.IH(2)[OF o(3)]
  have y: "\<not> is_container y"
    if m: "\<forall>n. is_implicit n \<longrightarrow> \<not> is_container (mat n)" and l: "\<not> is_container leaf"
  proof (cases "\<not> is_implicit leaf \<or> pre @ [idx] \<in> paths")
    case True
    from materialize_f_result[OF o(4)[rule_format, OF True], THEN conjunct2, THEN conjunct2,
        THEN conjunct2, THEN mp, OF m, THEN mp, OF l]
    show ?thesis by simp
  next
    case False
    with o(5) obtain ms where ms:
      "prune_leaves mat paths (pre @ [idx]) 0 (fst (flatten_one_implicit_layer leaf)) = Some (ms, c1)"
      "tree_unflatten (snd (flatten_one_implicit_layer leaf)) ms = Some y"
      by auto
    from False Cons.IH(1)[OF _ ms(1)] have "length ms = length (fst (flatten_one_implicit_layer leaf))"
      by simp
    from rebuild_implicit[OF _ this] False ms(2) have "is_implicit y" by auto
    then show ?thesis by (cases y) auto
  qed
  have len: "length out = length (leaf # rest)" using ih by (simp add: o(1))
  have "\<forall>y \<in> set out. \<not> is_container y"
    if m: "\<forall>n. is_implicit n \<longrightarrow> \<not> is_container (mat n)"
      and l: "\<forall>l \<in> set (leaf # rest). \<not> is_container l"
  proof -
    from l have "\<not> is_container leaf" "\<forall>l \<in> set rest. \<not> is_container l" by simp_all
    from y[OF m this(1)] ih[THEN conjunct2, THEN mp, OF m, THEN mp, OF this(2)]
    show ?thesis by (simp add: o(1))
  qed
  with len show ?case by blast
qed

lemma prune_leaves_identity:
  "(\<forall>k<length leaves. \<forall>q \<in> paths. \<not> prefix (pre @ [idx + k]) q) \<Longrightarrow>
     prune_leaves mat paths pre idx leaves = Some (leaves, [])"
proof (induction pre idx leaves rule: leaves_induct)
  case (Nil pre idx)
  show ?case by (simp add: prune_leaves_Nil)
next
  case (Cons pre idx leaf rest)
  have np: "\<forall>q \<in> paths. \<not> prefix (pre @ [idx]) q" using Cons.prems[rule_format, of 0] by simp
  then have notin: "pre @ [idx] \<notin> paths" by auto
  have rest: "prune_leaves mat paths pre (Suc idx) rest = Some (rest, [])"
  proof (rule Cons.IH(2), intro allI impI)
    fix k assume "k < length rest"
    then have "Suc k < length (leaf # rest)" by simp
    from Cons.prems[rule_format, OF this] show "\<forall>q \<in> paths. \<not> prefix (pre @ [Suc idx + k]) q"
      by simp
  qed
  show ?case
  proof (cases "is_implicit leaf")
    case False
    then show ?thesis
      by (simp add: prune_leaves_Cons materialize_f_concrete rest)
  next
    case True
    have "prune_leaves mat paths (pre @ [idx]) 0 (fst (flatten_one_implicit_layer leaf))
            = Some (fst (flatten_one_implicit_layer leaf), [])"
    proof (rule Cons.IH(1)[OF True], intro allI impI ballI)
      fix k q assume "q \<in> paths"
      with np have "\<not> prefix (pre @ [idx]) q" by blast
      then show "\<not> prefix ((pre @ [idx]) @ [0 + k]) q" by (metis append_prefixD)
    qed
    then show ?thesis using True notin
      by (simp add: prune_leaves_Cons flatten_one_roundtrip rest)
  qed
qed

lemma prune_leaves_total:
  assumes "\<forall>n. \<exists>k. \<not> is_implicit ((mat ^^ k) n)"
  shows "\<exists>out calls. prune_leaves mat paths pre idx leaves = Some (out, calls)"
proof (induction pre idx leaves rule: leaves_induct)
  case (Nil pre idx)
  show ?case by (simp add: prune_leaves_Nil)
next
  case (Cons pre idx leaf rest)
  from Cons.IH(2) obtain ys c2 where r: "prune_leaves mat paths pre (Suc idx) rest = Some (ys, c2)"
    by blast
  show ?case
  proof (cases "\<not> is_implicit leaf \<or> pre @ [idx] \<in> paths")
    case True
    from assms obtain k where "\<not> is_implicit ((mat ^^ k) leaf)" by blast
    from materialize_f_total[OF this] obtain y c1 where
      "materialize_f mat (pre @ [idx]) leaf = Some (y, c1)" by force
    then show ?thesis using True r by (simp add: prune_leaves_Cons)
  next
    case False
    with Cons.IH(1) obtain ms c1 where ms:
      "prune_leaves mat paths (pre @ [idx]) 0 (fst (flatten_one_implicit_layer leaf)) = Some (ms, c1)"
      by blast
    from prune_leaves_length[OF ms] have "length ms = length (fst (flatten_one_implicit_layer leaf))"
      by simp
    from rebuild_implicit[OF _ this] False obtain y where
      "tree_unflatten (snd (flatten_one_implicit_layer leaf)) ms = Some y" by auto
    then show ?thesis using False r ms by (simp add: prune_leaves_Cons)
  qed
qed

lemma materialize_subtrees_eq:
  "materialize_subtrees paths mat x =
     (case prune_leaves mat paths [] 0 (tree_leaves is_implicit x) of
        None \<Rightarrow> None
      | Some (mapped, calls) \<Rightarrow>
          (case tree_unflatten (tree_structure is_implicit x) mapped of
             None \<Rightarrow> None
           | Some t' \<Rightarrow> Some (t', calls)))"
  unfolding materialize_subtrees_def wrapped_simps map_leaves_with_implicit_path_def
    prune_leaves_def Let_def prod.case by (rule refl)

lemma materialize_subtrees_SomeE:
  assumes "materialize_subtrees paths mat x = Some (x', calls)"
  shows "\<exists>mapped. prune_leaves mat paths [] 0 (tree_leaves is_implicit x) = Some (mapped, calls) \<and>
                  tree_unflatten (tree_structure is_implicit x) mapped = Some x'"
proof -
  let ?p = "prune_leaves mat paths [] 0 (tree_leaves is_implicit x)"
  from assms obtain mapped c where p: "?p = Some (mapped, c)"
    unfolding materialize_subtrees_eq by (cases ?p) auto
  from assms obtain t where t: "tree_unflatten (tree_structure is_implicit x) mapped = Some t"
    unfolding materialize_subtrees_eq p
    by (cases "tree_unflatten (tree_structure is_implicit x) mapped") auto
  have "t = x'" "c = calls" using assms unfolding materialize_subtrees_eq by (simp_all add: p t)
  with p t show ?thesis by simp
qed

lemma transform_calls:
  assumes "get_pruning_transform t paths mat x = Some (x', calls)"
  shows "set calls \<subseteq> paths"
proof (cases "paths = {}")
  case True
  with assms show ?thesis by (simp add: get_pruning_transform_def identity_transform_def)
next
  case False
  with assms have "materialize_subtrees paths mat x = Some (x', calls)"
    by (simp add: get_pruning_transform_def)
  from materialize_subtrees_SomeE[OF this] prune_leaves_calls show ?thesis by blast
qed

lemma gcpt_transforms:
  assumes "get_common_prefix_transforms trees = Inr ts" "t \<in> set ts"
  shows "t = identity_transform \<or> (\<exists>t0. t = get_pruning_transform t0 (common_prefix_paths trees))"
proof (cases "length trees \<le> 1")
  case True
  with assms show ?thesis by (auto simp: get_common_prefix_transforms_def)
next
  case False
  with assms(1) have "ts = map (\<lambda>t. get_pruning_transform t (common_prefix_paths trees)) trees"
    by (simp add: get_common_prefix_transforms_def Let_def split: option.splits)
  with assms(2) show ?thesis by auto
qed

lemma materialize_f_one_step:
  "is_implicit n \<Longrightarrow> \<not> is_implicit (mat n) \<Longrightarrow> materialize_f mat p n = Some (mat n, [p])"
  by (subst materialize_f.simps) (simp add: materialize_f_concrete)

lemma example_gcpt:
  "get_common_prefix_transforms [treeA, treeB] =
     Inr [get_pruning_transform treeA {[0], [1]}, get_pruning_transform treeB {[0], [1]}]"
proof -
  have s: "tree_structure_with_implicit treeA = tree_structure_with_implicit treeB" by code_simp
  have "list_all2 (\<lambda>l a. get_aval l = a) (tree_leaves_with_implicit treeB)
           (map get_aval (tree_leaves_with_implicit treeA))" by code_simp
  from gcpt_pair[OF s this] show ?thesis by (simp add: example_paths)
qed

lemma example_apply:
  "get_pruning_transform treeA {[0], [1]} mat7 treeA
     = Some (Node PyList [Arr m3 7, Arr m3 7], [[0], [1]])"
  by (simp add: get_pruning_transform_def materialize_subtrees_eq prune_leaves_Cons prune_leaves_Nil
      treeA_def materialize_f_one_step mat7_def tree_unflatten_def)

lemma node_at_Cons_Suc: "node_at (l # ls) (Suc k # r) = node_at ls (k # r)"
  by (cases r) simp_all

lemma node_at_Cons_0:
  "node_at (l # ls) (0 # j # r) =
     (if is_implicit l then node_at (fst (flatten_one_implicit_layer l)) (j # r) else None)"
  by simp

lemma flatten_one_leaves_not_container:
  assumes "is_implicit t"
  shows "\<forall>l \<in> set (fst (flatten_one_implicit_layer t)). \<not> is_container l"
proof -
  from assms obtain a m cs where t: "t = ImplicitArray a m cs" by (cases t) auto
  show ?thesis unfolding t flatten_one_Implicit fst_conv
  proof
    fix l assume "l \<in> set (concat (map (tree_leaves is_implicit) cs))"
    then obtain c where "l \<in> set (tree_leaves is_implicit c)" by auto
    then show "\<not> is_container l" by (rule leaves_not_container)
  qed
qed

lemma node_at_not_container:
  "node_at leaves p = Some n \<Longrightarrow> (\<forall>l \<in> set leaves. \<not> is_container l) \<Longrightarrow> \<not> is_container n"
proof (induction leaves p rule: node_at.induct)
  case (1 leaves)
  then show ?case by simp
next
  case (2 leaves i)
  then show ?case by (auto split: if_splits)
next
  case (3 leaves i j r)
  from 3(2) have c: "i < length leaves \<and> is_implicit (leaves ! i)"
    and n: "node_at (fst (flatten_one_implicit_layer (leaves ! i))) (j # r) = Some n"
    by (simp_all split: if_splits)
  show ?case
    by (rule 3(1)[OF c n]) (rule flatten_one_leaves_not_container[OF c[THEN conjunct2]])
qed

lemma expand_implicit:
  assumes m: "\<forall>n. is_implicit n \<longrightarrow> \<not> is_container (mat n)"
    and imp: "is_implicit leaf"
    and ms: "prune_leaves mat paths path 0 (fst (flatten_one_implicit_layer leaf)) = Some (ms, c1)"
      "tree_unflatten (snd (flatten_one_implicit_layer leaf)) ms = Some y"
  shows "is_implicit y \<and> get_aval y = get_aval leaf \<and>
         fst (flatten_one_implicit_layer y) = ms \<and>
         snd (flatten_one_implicit_layer y) = snd (flatten_one_implicit_layer leaf)"
proof -
  let ?sub = "fst (flatten_one_implicit_layer leaf)"
  have nc_sub: "\<forall>l \<in> set ?sub. \<not> is_container l"
    by (rule flatten_one_leaves_not_container[OF imp])
  note pl = prune_leaves_length[OF ms(1)]
  from pl have len: "length ms = length ?sub" by (rule conjunct1)
  from pl[THEN conjunct2, THEN mp, OF m, THEN mp, OF nc_sub]
  have nc_ms: "\<forall>y \<in> set ms. \<not> is_container y" .
  from rebuild_implicit[OF imp len] obtain y' where y':
    "tree_unflatten (snd (flatten_one_implicit_layer leaf)) ms = Some y'" "is_implicit y'"
    "get_aval y' = get_aval leaf"
    "(\<forall>m \<in> set ms. \<not> is_container m) \<longrightarrow>
                 fst (flatten_one_implicit_layer y') = ms \<and>
                 snd (flatten_one_implicit_layer y') = snd (flatten_one_implicit_layer leaf)"
    by blast
  from y'(1) ms(2) have "y' = y" by simp
  with y'(2,3) y'(4)[THEN mp, OF nc_ms] show ?thesis by simp
qed

lemma pruned_node_below:
  assumes "q \<in> paths" "prefix q p" "q \<noteq> p"
  shows "pruned_node mat paths p n res"
proof -
  have 1: "\<not> (\<forall>q \<in> paths. \<not> prefix q p \<and> \<not> prefix p q)" using assms(1,2) by blast
  have 2: "\<not> (\<forall>q \<in> paths. \<not> prefix q p)" using assms(1,2) by blast
  have 3: "\<not> (p \<in> paths \<and> (\<forall>q \<in> paths. prefix q p \<longrightarrow> q = p))" using assms by blast
  show ?thesis unfolding pruned_node_def using 1 2 3 by blast
qed

lemma pruned_nodeI:
  assumes "(\<forall>q \<in> paths. \<not> prefix q p \<and> \<not> prefix p q) \<Longrightarrow> res = Some n"
    and "(\<forall>q \<in> paths. \<not> prefix q p) \<Longrightarrow>
        (\<exists>n'. res = Some n' \<and> is_implicit n' = is_implicit n \<and> get_aval n' = get_aval n \<and>
              snd (flatten_one_implicit_layer n') = snd (flatten_one_implicit_layer n))"
    and "p \<in> paths \<Longrightarrow> (\<exists>c cs. materialize_f mat p n = Some (c, cs) \<and> res = Some c)"
  shows "pruned_node mat paths p n res"
  unfolding pruned_node_def using assms by blast

lemma prune_leaves_nodes:
  assumes m: "\<forall>n. is_implicit n \<longrightarrow> \<not> is_container (mat n)"
  shows "prune_leaves mat paths pre idx leaves = Some (out, calls) \<Longrightarrow>
         (\<forall>l \<in> set leaves. \<not> is_container l) \<Longrightarrow>
         node_at leaves (k # r) = Some n \<Longrightarrow>
         pruned_node mat paths (pre @ (idx + k) # r) n (node_at out (k # r))"
proof (induction pre idx leaves arbitrary: out calls k r rule: leaves_induct)
  case (Nil pre idx)
  from Nil(3) show ?case by (cases r) simp_all
next
  case (Cons pre idx leaf rest)
  from prune_leaves_ConsE[OF Cons.prems(1)] obtain y c1 ys c2 where o: "out = y # ys" "calls = c1 @ c2"
    "prune_leaves mat paths pre (Suc idx) rest = Some (ys, c2)"
    "\<not> is_implicit leaf \<or> pre @ [idx] \<in> paths \<longrightarrow> materialize_f mat (pre @ [idx]) leaf = Some (y, c1)"
    "is_implicit leaf \<and> pre @ [idx] \<notin> paths \<longrightarrow>
       (\<exists>ms. prune_leaves mat paths (pre @ [idx]) 0 (fst (flatten_one_implicit_layer leaf)) = Some (ms, c1) \<and>
            tree_unflatten (snd (flatten_one_implicit_layer leaf)) ms = Some y)"
    by blast
  let ?path = "pre @ [idx]"
  let ?sub = "fst (flatten_one_implicit_layer leaf)"
  have nc_rest: "\<forall>l \<in> set rest. \<not> is_container l"
    using Cons.prems(2) by simp
  show ?case
  proof (cases k)
    case (Suc k')
    from Cons.prems(3) have "node_at rest (k' # r) = Some n"
      unfolding Suc node_at_Cons_Suc .
    from Cons.IH(2)[OF o(3) nc_rest this]
    have "pruned_node mat paths (pre @ (Suc idx + k') # r) n (node_at ys (k' # r))" .
    then show ?thesis unfolding Suc o(1) node_at_Cons_Suc by simp
  next
    case 0
    show ?thesis
    proof (cases r)
      case (Cons j r')
      from Cons.prems(3) have imp: "is_implicit leaf" and n: "node_at ?sub (j # r') = Some n"
        unfolding 0 Cons node_at_Cons_0 by (simp_all split: if_splits)
      have pp: "prefix ?path (pre @ (idx + k) # r)" "?path \<noteq> pre @ (idx + k) # r"
        unfolding 0 Cons by (simp_all add: prefix_def)
      show ?thesis
      proof (cases "?path \<in> paths")
        case True
        then show ?thesis using pp by (rule pruned_node_below)
      next
        case False
        from o(5) imp False obtain ms where ms: "prune_leaves mat paths ?path 0 ?sub = Some (ms, c1)"
          "tree_unflatten (snd (flatten_one_implicit_layer leaf)) ms = Some y" by blast
        from expand_implicit[OF m imp ms] have y: "is_implicit y" "fst (flatten_one_implicit_layer y) = ms"
          by simp_all
        have nc_sub: "\<forall>l \<in> set ?sub. \<not> is_container l"
          by (rule flatten_one_leaves_not_container[OF imp])
        from Cons.IH(1)[OF imp ms(1) nc_sub n]
        have "pruned_node mat paths (?path @ (0 + j) # r') n (node_at ms (j # r'))" .
        moreover have "node_at out (k # r) = node_at ms (j # r')"
          unfolding 0 Cons o(1) node_at_Cons_0 using y by simp
        moreover have "?path @ (0 + j) # r' = pre @ (idx + k) # r"
          unfolding 0 Cons by simp
        ultimately show ?thesis by simp
      qed
    next
      case Nil
      from Cons.prems(3) have n: "n = leaf" unfolding 0 Nil by simp
      have res: "node_at out (k # r) = Some y" unfolding 0 Nil o(1) by simp
      have p: "pre @ (idx + k) # r = ?path" unfolding 0 Nil by simp
      show ?thesis unfolding res n p
      proof (rule pruned_nodeI)
        assume a: "\<forall>q \<in> paths. \<not> prefix q ?path \<and> \<not> prefix ?path q"
        show "Some y = Some leaf"
        proof (cases "is_implicit leaf")
          case False
          with o(4) have "materialize_f mat ?path leaf = Some (y, c1)" by simp
          with False show ?thesis by (simp add: materialize_f_concrete)
        next
          case True
          from a have notin: "?path \<notin> paths" by auto
          from o(5) True notin obtain ms where ms: "prune_leaves mat paths ?path 0 ?sub = Some (ms, c1)"
            "tree_unflatten (snd (flatten_one_implicit_layer leaf)) ms = Some y" by blast
          have "prune_leaves mat paths ?path 0 ?sub = Some (?sub, [])"
          proof (rule prune_leaves_identity, intro allI impI ballI)
            fix k q assume "q \<in> paths"
            with a have "\<not> prefix ?path q" by blast
            then show "\<not> prefix (?path @ [0 + k]) q" by (metis append_prefixD)
          qed
          with ms(1) have "ms = ?sub" by simp
          with ms(2) flatten_one_roundtrip[OF True] show ?thesis by simp
        qed
      next
        assume c: "\<forall>q \<in> paths. \<not> prefix q ?path"
        show "\<exists>n'. Some y = Some n' \<and> is_implicit n' = is_implicit leaf \<and> get_aval n' = get_aval leaf \<and>
              snd (flatten_one_implicit_layer n') = snd (flatten_one_implicit_layer leaf)"
        proof (cases "is_implicit leaf")
          case False
          with o(4) have "materialize_f mat ?path leaf = Some (y, c1)" by simp
          with False have "y = leaf" by (simp add: materialize_f_concrete)
          then show ?thesis by simp
        next
          case True
          from c have notin: "?path \<notin> paths" by auto
          from o(5) True notin obtain ms where ms: "prune_leaves mat paths ?path 0 ?sub = Some (ms, c1)"
            "tree_unflatten (snd (flatten_one_implicit_layer leaf)) ms = Some y" by blast
          from expand_implicit[OF m True ms] True show ?thesis by simp
        qed
      next
        assume "?path \<in> paths"
        with o(4) show "\<exists>c cs. materialize_f mat ?path leaf = Some (c, cs) \<and> Some y = Some c"
          by simp
      qed
    qed
  qed
qed

lemma pruned_node_same: "pruned_node mat {} p n (Some n)"
  by (simp add: pruned_node_def)

lemma transform_nodes:
  assumes mat_leaf: "\<forall>n. is_implicit n \<longrightarrow> \<not> is_container (mat n)"
    and mat_term: "\<forall>n. \<exists>k. \<not> is_implicit ((mat ^^ k) n)"
  shows "\<exists>x' calls. get_pruning_transform t paths mat x = Some (x', calls) \<and>
           (\<forall>p n. node_at (tree_leaves_with_implicit x) p = Some n \<longrightarrow>
                  pruned_node mat paths p n (node_at (tree_leaves_with_implicit x') p))"
proof (cases "paths = {}")
  case True
  have "get_pruning_transform t paths mat x = Some (x, [])"
    by (simp add: True get_pruning_transform_def identity_transform_def)
  then show ?thesis using pruned_node_same by (auto simp: True)
next
  case False
  let ?leaves = "tree_leaves is_implicit x"
  from prune_leaves_total[OF mat_term, of paths "[]" 0 ?leaves] obtain mapped calls where
    pl: "prune_leaves mat paths [] 0 ?leaves = Some (mapped, calls)" by blast
  have nc: "\<forall>l \<in> set ?leaves. \<not> is_container l"
    using leaves_not_container by blast
  note len = prune_leaves_length[OF pl]
  from len have l: "length mapped = length ?leaves" by (rule conjunct1)
  from len[THEN conjunct2, THEN mp, OF mat_leaf, THEN mp, OF nc]
  have ncm: "\<forall>y \<in> set mapped. \<not> is_container y" .
  from unflatten_replace[of x, rule_format, OF l, of "[]"] obtain x' where
    x': "unflatten_from (tree_structure is_implicit x) mapped = Some (x', [])"
      "(\<forall>y \<in> set mapped. \<not> is_container y) \<longrightarrow> tree_leaves is_implicit x' = mapped \<and>
           tree_structure is_implicit x' = tree_structure is_implicit x"
    by auto
  from x'(2) ncm have lx: "tree_leaves is_implicit x' = mapped" by blast
  have u: "tree_unflatten (tree_structure is_implicit x) mapped = Some x'"
    using x'(1) by (simp add: tree_unflatten_def)
  have app: "get_pruning_transform t paths mat x = Some (x', calls)"
    using False by (simp add: get_pruning_transform_def materialize_subtrees_eq pl u)
  have "pruned_node mat paths p n (node_at (tree_leaves_with_implicit x') p)"
    if n: "node_at (tree_leaves_with_implicit x) p = Some n" for p n
  proof (cases p)
    case Nil
    with n show ?thesis by simp
  next
    case (Cons k r)
    from n have "node_at ?leaves (k # r) = Some n" by (simp add: wrapped_simps Cons)
    from prune_leaves_nodes[OF mat_leaf pl nc this] show ?thesis
      by (simp add: wrapped_simps Cons lx)
  qed
  with app show ?thesis by blast
qed

lemma mat7_leaf: "\<forall>n. is_implicit n \<longrightarrow> \<not> is_container (mat7 n)"
  by (simp add: mat7_def)

lemma mat7_terminates: "\<forall>n. \<exists>k. \<not> is_implicit ((mat7 ^^ k) n)"
proof
  fix n
  have "\<not> is_implicit ((mat7 ^^ 1) n)" by (simp add: mat7_def)
  then show "\<exists>k. \<not> is_implicit ((mat7 ^^ k) n)" by (rule exI)
qed

lemma example_node_0: "node_at (tree_leaves_with_implicit treeC) [0] = Some (Arr m3 0)"
  by code_simp

lemma example_node_10:
  "node_at (tree_leaves_with_implicit treeC) [1, 0] = Some (ImplicitArray 1 m3 [Arr m3 0])"
  by code_simp

section \<open>The one-layer expansion on a concrete leaf\<close>

text \<open>
  C8, as the claim states it, fails: on a concrete leaf \<^verbatim>\<open>flatten_one_implicit_layer\<close>
  raises nothing. For the array of shape \<open>(3,)\<close> and type float32 it returns the leaf
  itself as the only leaf, with the descriptor of a single leaf.
\<close>

theorem flatten_one_concrete_counterexample:
  "flatten_one_implicit_layer (Arr (ShapedArray [3] ''float32'') 0)
     = ([Arr (ShapedArray [3] ''float32'') 0], LeafDef)"
  by (simp add: flatten_one_implicit_layer_def wrapped_simps replace_subtree_implicits_def one_def)

text \<open>
  C8, amended: on every concrete leaf \<^verbatim>\<open>flatten_one_implicit_layer\<close> returns a result,
  namely the one-element list holding the leaf and the descriptor of a single leaf; the
  branch \<^verbatim>\<open>else [leaf]\<close> of line 65 is the one taken.
\<close>

theorem flatten_one_concrete_returns:
  "flatten_one_implicit_layer (Arr m v) = ([Arr m v], LeafDef)"
  by (simp add: flatten_one_implicit_layer_def wrapped_simps replace_subtree_implicits_def one_def)

section \<open>The axis check of \<^verbatim>\<open>vmap_all_but_one\<close>\<close>

lemma raises_at_rank_one: "raises_at_rank f 1 (Vmap fn 1 out_axes)"
  unfolding raises_at_rank_def
proof (intro allI impI)
  fix a0 :: array_shape and rest assume "length a0 = 1"
  then have "\<not> axis_in_range 1 (length a0)" by (simp add: axis_in_range_def)
  then have "\<exists>s \<in> set (a0 # rest). \<not> axis_in_range 1 (length s)" by simp
  then have "call_mapped f (Vmap fn 1 out_axes) (a0 # rest) = Inl ValueError_vmap"
    by (simp only: call_mapped.simps if_True)
  then show "\<exists>e. call_mapped f (Vmap fn 1 out_axes) (a0 # rest) = Inl e \<and> is_ValueError e"
    by simp
qed

lemma raises_at_rank_Suc:
  assumes "raises_at_rank f n fn"
  shows "raises_at_rank f (Suc n) (Vmap fn 1 out_axes)"
  unfolding raises_at_rank_def
proof (intro allI impI)
  fix a0 :: array_shape and rest assume len: "length a0 = Suc n"
  let ?shapes = "a0 # rest"
  let ?cut = "\<lambda>s :: array_shape. take (canonicalize_axis 1 (length s)) s @
                              drop (Suc (canonicalize_axis 1 (length s))) s"
  let ?sizes = "map (\<lambda>s. s ! canonicalize_axis 1 (length s)) ?shapes"
  show "\<exists>e. call_mapped f (Vmap fn 1 out_axes) ?shapes = Inl e \<and> is_ValueError e"
  proof (cases "\<exists>s \<in> set ?shapes. \<not> axis_in_range 1 (length s)")
    case True
    then have "call_mapped f (Vmap fn 1 out_axes) ?shapes = Inl ValueError_vmap"
      by (simp only: call_mapped.simps if_True)
    then show ?thesis by simp
  next
    case False
    note ranks = this
    show ?thesis
    proof (cases "\<exists>n \<in> set ?sizes. n \<noteq> hd ?sizes")
      case True
      with ranks have "call_mapped f (Vmap fn 1 out_axes) ?shapes = Inl ValueError_vmap"
        by (simp only: call_mapped.simps Let_def if_True if_False)
      then show ?thesis by simp
    next
      case False
      from ranks have "axis_in_range 1 (length a0)" by simp
      then have "length (?cut a0) = n"
        using len by (simp add: axis_in_range_def canonicalize_axis_def)
      with assms obtain e where e: "call_mapped f fn (?cut a0 # map ?cut rest) = Inl e"
        "is_ValueError e"
        unfolding raises_at_rank_def by blast
      have "map ?cut ?shapes = ?cut a0 # map ?cut rest" by simp
      with e(1) have "call_mapped f fn (map ?cut ?shapes) = Inl e" by simp
      with ranks False have "call_mapped f (Vmap fn 1 out_axes) ?shapes = Inl e"
        by (simp only: call_mapped.simps Let_def if_False sum.case)
      with e(2) show ?thesis by simp
    qed
  qed
qed

lemma raises_at_rank_loop:
  "\<forall>i \<in> set is. int i \<noteq> axis \<Longrightarrow> raises_at_rank f n fn \<Longrightarrow>
     raises_at_rank f (n + length is) (fst (vmap_loop axis is (fn, 1, out_ndim)))"
proof (induction "is" arbitrary: fn n)
  case Nil
  then show ?case by simp
next
  case (Cons i "is")
  from Cons.prems(2) have "raises_at_rank f (Suc n) (Vmap fn 1 out_ndim)"
    by (rule raises_at_rank_Suc)
  with Cons.prems(1) have "raises_at_rank f (Suc n + length is)
      (fst (vmap_loop axis is (Vmap fn 1 out_ndim, 1, out_ndim)))"
    by (intro Cons.IH) simp_all
  with Cons.prems(1) show ?case by simp
qed

lemma vmap_negative_axis_raises:
  assumes "axis < 0" "1 \<le> length a0"
  shows "\<exists>e. vmap_all_but_one f axis out_ndim (a0 # rest) = Inl e \<and> is_ValueError e"
proof -
  from assms(2) obtain m where m: "length a0 = Suc m" by (cases "length a0") auto
  have ne: "\<forall>i \<in> set (rev [0..<m]). int i \<noteq> axis" using assms(1) by auto
  have "raises_at_rank f (1 + length (rev [0..<m]))
          (fst (vmap_loop axis (rev [0..<m]) (Vmap Fn 1 out_ndim, 1, out_ndim)))"
    using ne raises_at_rank_one by (rule raises_at_rank_loop)
  moreover have "fst (vmap_loop axis (rev [0..<Suc m]) (Fn, 1, out_ndim))
                   = fst (vmap_loop axis (rev [0..<m]) (Vmap Fn 1 out_ndim, 1, out_ndim))"
    using assms(1) by simp
  ultimately have "raises_at_rank f (Suc m) (fst (vmap_loop axis (rev [0..<Suc m]) (Fn, 1, out_ndim)))"
    by simp
  then obtain e where "call_mapped f (fst (vmap_loop axis (rev [0..<Suc m]) (Fn, 1, out_ndim))) (a0 # rest) = Inl e"
    "is_ValueError e"
    unfolding raises_at_rank_def using m by blast
  moreover have "\<not> int (length a0) \<le> axis" using assms(1) by simp
  ultimately show ?thesis by (simp add: vmap_all_but_one_def m)
qed

text \<open>
  C9, as the claim states it, fails: the check of line 18 is \<^verbatim>\<open>axis >= n_dim\<close> only. With
  axis \<open>-1\<close> and a first argument of dimension 0, for which no axis is in range, the loop
  runs no round and the inner function returns \<^verbatim>\<open>f(*args)\<close>: here \<^verbatim>\<open>f\<close> returns a scalar,
  and so does the inner function.
\<close>

theorem vmap_negative_axis_counterexample:
  "vmap_all_but_one (\<lambda>shapes. Inr []) (- 1) 0 [[]] = Inr []"
  by (simp add: vmap_all_but_one_def)

text \<open>
  C9, amended: for every axis that is out of range for the dimension count of the first
  argument, the function returned by \<^verbatim>\<open>vmap_all_but_one\<close> raises a ValueError instead of
  mapping, except for a negative axis with a first argument of dimension 0. An axis that
  is at least the dimension count raises the ValueError of line 19, which names the axis
  and the dimension count. A negative axis with a first argument of at least one
  dimension raises a ValueError at the call of line 29. A negative axis with a first
  argument of dimension 0 raises nothing: the result is \<^verbatim>\<open>f(*args)\<close>.
\<close>

theorem vmap_axis_out_of_range_raises:
  "(int (length a0) \<le> axis \<longrightarrow>
      vmap_all_but_one f axis out_ndim (a0 # rest) = Inl (ValueError_axis axis (length a0))) \<and>
   (axis < 0 \<and> 1 \<le> length a0 \<longrightarrow>
      (\<exists>e. vmap_all_but_one f axis out_ndim (a0 # rest) = Inl e \<and> is_ValueError e)) \<and>
   (axis < 0 \<and> length a0 = 0 \<longrightarrow>
      vmap_all_but_one f axis out_ndim (a0 # rest) = f (a0 # rest))"
proof (intro conjI impI)
  assume "int (length a0) \<le> axis"
  then show "vmap_all_but_one f axis out_ndim (a0 # rest) = Inl (ValueError_axis axis (length a0))"
    by (simp add: vmap_all_but_one_def)
next
  assume "axis < 0 \<and> 1 \<le> length a0"
  then show "\<exists>e. vmap_all_but_one f axis out_ndim (a0 # rest) = Inl e \<and> is_ValueError e"
    using vmap_negative_axis_raises[of axis a0 f out_ndim rest] by blast
next
  assume "axis < 0 \<and> length a0 = 0"
  then show "vmap_all_but_one f axis out_ndim (a0 # rest) = f (a0 # rest)"
    by (simp add: vmap_all_but_one_def)
qed

theorem vmap_axis_out_of_range_raises_witness:
  "vmap_all_but_one (\<lambda>shapes. Inr []) 2 0 [[3, 4]] = Inl (ValueError_axis 2 2) \<and>
   (\<exists>e. vmap_all_but_one (\<lambda>shapes. Inr []) (- 1) 0 [[3, 4]] = Inl e \<and> is_ValueError e) \<and>
   vmap_all_but_one (\<lambda>shapes. Inr []) (- 1) 0 [[]] = Inr []"
  using vmap_axis_out_of_range_raises[of "[3, 4]" 2 "\<lambda>shapes. Inr []" 0 "[]"]
    vmap_axis_out_of_range_raises[of "[3, 4]" "- 1" "\<lambda>shapes. Inr []" 0 "[]"]
    vmap_axis_out_of_range_raises[of "[]" "- 1" "\<lambda>shapes. Inr []" 0 "[]"]
  by simp

section \<open>The no-prefix invariant\<close>

text \<open>
  C2: the set \<^verbatim>\<open>materialization_paths\<close> never holds two distinct paths of which one is a
  prefix of the other. This holds for the set the loop ends with, for any input trees, and
  for the set after any number of rounds of the loop.
\<close>

theorem materialization_paths_no_prefix:
  "(\<forall>p \<in> common_prefix_paths trees. \<forall>q \<in> common_prefix_paths trees.
      p \<noteq> q \<longrightarrow> \<not> prefix p q) \<and>
   (\<forall>p \<in> snd (rounds n (initial_stack trees, {})).
      \<forall>q \<in> snd (rounds n (initial_stack trees, {})). p \<noteq> q \<longrightarrow> \<not> prefix p q)"
proof -
  have "snd (rounds n (initial_stack trees, {})) \<subseteq> common_prefix_paths trees"
    unfolding common_prefix_paths_def by (rule rounds_subset)
  then show ?thesis using common_prefix_paths_antichain[of _ trees] by blast
qed

theorem materialization_paths_no_prefix_witness:
  "[0] \<in> common_prefix_paths [treeA, treeB] \<and> [1] \<in> common_prefix_paths [treeA, treeB] \<and>
   [0] \<in> snd (rounds 2 (initial_stack [treeA, treeB], {})) \<and>
   [1] \<in> snd (rounds 2 (initial_stack [treeA, treeB], {})) \<and>
   [0] \<noteq> [1::nat] \<and> \<not> prefix [0] [1::nat]"
  using materialization_paths_no_prefix[of "[treeA, treeB]" 2]
  by (simp add: example_paths example_rounds)

section \<open>A metadata mismatch stops the expansion of an entry\<close>

text \<open>
  C4: when the loop pops an entry \<open>(path_prefix, nodes)\<close> with an implicit node, whose
  one-layer descriptors are all equal, and some position group \<open>g\<close> holds an element \<open>leaf\<close>
  after the first whose shape or dtype differs from the first element's, the round adds
  \<open>path_prefix\<close> to the set and pushes nothing: the stack is the rest of the stack, and
  the loop goes on from there.
\<close>

theorem metadata_mismatch_stops:
  assumes "list_ex is_implicit nodes"
    and "\<forall>n \<in> set nodes. snd (flatten_one_implicit_layer n)
                              = snd (flatten_one_implicit_layer (hd nodes))"
    and "g \<in> set (zip_star (map (\<lambda>n. fst (flatten_one_implicit_layer n)) nodes))"
    and "leaf \<in> set (tl g)"
    and "\<not> (shape (get_aval leaf) = shape (get_aval (hd g)) \<and>
            dtype (get_aval leaf) = dtype (get_aval (hd g)))"
  shows "loop_body (stack @ [(path_prefix, nodes)], mp) = (stack, insert path_prefix mp) \<and>
         traverse (stack @ [(path_prefix, nodes)], mp) = traverse (stack, insert path_prefix mp)"
proof -
  have st: "\<not> 1 < card (set (entry_structures nodes))"
    unfolding entry_structures_def by (rule all_equal_card) (rule assms(2))
  have mm: "\<exists>g \<in> set (entry_groups nodes). group_mismatch g"
    using assms(3,4,5) unfolding entry_groups_def group_mismatch_def aval_mismatch_def by blast
  have ch: "entry_children (path_prefix, nodes) = []"
    using mm by (simp add: entry_children_def)
  have ad: "entry_added (path_prefix, nodes) = {path_prefix}"
    using assms(1) st mm by (simp add: entry_added_def del: list_ex_iff)
  have "loop_body (stack @ [(path_prefix, nodes)], mp) = (stack, insert path_prefix mp)"
    using loop_body_eq[of "stack @ [(path_prefix, nodes)]" mp] by (simp add: ch ad)
  moreover have "traverse (stack @ [(path_prefix, nodes)], mp) = traverse (stack, insert path_prefix mp)"
    unfolding traverse_snoc by (simp add: ch ad)
  ultimately show ?thesis by simp
qed

theorem metadata_mismatch_stops_witness:
  "loop_body ([([1], [Arr m3 0, Arr m3 0])] @
       [([0], [ImplicitArray 0 m3 [Arr m3 0],
               ImplicitArray 0 m3 [Arr (ShapedArray [3] ''float64'') 0]])], {})
     = ([([1], [Arr m3 0, Arr m3 0])], {[0]})"
proof -
  let ?nodes = "[ImplicitArray 0 m3 [Arr m3 0],
                 ImplicitArray 0 m3 [Arr (ShapedArray [3] ''float64'') 0]]"
  let ?g = "[Arr m3 0, Arr (ShapedArray [3] ''float64'') 0]"
  have h1: "list_ex is_implicit ?nodes" by simp
  have h2: "\<forall>n \<in> set ?nodes. snd (flatten_one_implicit_layer n)
                              = snd (flatten_one_implicit_layer (hd ?nodes))"
    by code_simp
  have h3: "?g \<in> set (zip_star (map (\<lambda>n. fst (flatten_one_implicit_layer n)) ?nodes))"
    by code_simp
  have h4: "Arr (ShapedArray [3] ''float64'') 0 \<in> set (tl ?g)" by simp
  have h5: "\<not> (shape (get_aval (Arr (ShapedArray [3] ''float64'') 0)) = shape (get_aval (hd ?g)) \<and>
            dtype (get_aval (Arr (ShapedArray [3] ''float64'') 0)) = dtype (get_aval (hd ?g)))"
    by (simp add: m3_def)
  show ?thesis
    using metadata_mismatch_stops[OF h1 h2 h3 h4 h5, of "[([1], [Arr m3 0, Arr m3 0])]" "[0]" "{}"]
    by simp
qed

section \<open>Trees without implicit arrays\<close>

text \<open>
  C7: for a tree \<open>t\<close> that contains no implicit array, \<^verbatim>\<open>implicit_depth(t)\<close> is 0, and
  \<^verbatim>\<open>get_common_prefix_transforms([t, t])\<close> ends with the empty set of materialization
  paths and returns two identity transforms; an identity transform returns its argument
  and calls no materialization.
\<close>

theorem identity_on_no_implicit:
  assumes "no_implicit t"
  shows "implicit_depth t = 0 \<and>
         common_prefix_paths [t, t] = {} \<and>
         get_common_prefix_transforms [t, t] = Inr [identity_transform, identity_transform] \<and>
         identity_transform mat x = Some (x, [])"
  using assms
  by (simp add: implicit_depth_no_implicit common_prefix_paths_same gcpt_same identity_transform_def)

theorem identity_on_no_implicit_witness:
  "no_implicit (Node PyList [Arr m3 0, Node PyTuple [Arr m3 1]]) \<and>
   implicit_depth (Node PyList [Arr m3 0, Node PyTuple [Arr m3 1]]) = 0 \<and>
   get_common_prefix_transforms
     [Node PyList [Arr m3 0, Node PyTuple [Arr m3 1]], Node PyList [Arr m3 0, Node PyTuple [Arr m3 1]]]
     = Inr [identity_transform, identity_transform]"
  using identity_on_no_implicit[of "Node PyList [Arr m3 0, Node PyTuple [Arr m3 1]]"]
  by simp

section \<open>Minimality of the materialization paths\<close>

text \<open>
  C1: let two trees have the same top-level structure and leaf lists that are identical
  except that the implicit array at path \<open>P\<close> expands to a different topology
  (\<open>differs_at\<close>). Then the precondition checks pass, the loop ends with the set \<open>{P}\<close>,
  which holds no ancestor of \<open>P\<close>, no descendant and no other path, and both transforms
  are built from that set.
\<close>

theorem minimality:
  assumes "tree_structure_with_implicit tA = tree_structure_with_implicit tB"
    and "differs_at P (tree_leaves_with_implicit tA) (tree_leaves_with_implicit tB)"
  shows "common_prefix_paths [tA, tB] = {P} \<and>
         get_common_prefix_transforms [tA, tB]
           = Inr [get_pruning_transform tA {P}, get_pruning_transform tB {P}]"
proof -
  let ?xs = "tree_leaves_with_implicit tA" and ?ys = "tree_leaves_with_implicit tB"
  have len: "length ?xs = length ?ys" and av: "\<forall>j<length ?xs. get_aval (?xs ! j) = get_aval (?ys ! j)"
    using differs_at_avals[OF assms(2)] by simp_all
  have paths: "common_prefix_paths [tA, tB] = {P}"
    using initial_stack_pair[OF len refl refl] differs_at_paths[OF assms(2), of "[]"] by simp
  have "list_all2 (\<lambda>l a. get_aval l = a) ?ys (map get_aval ?xs)"
    using len av by (simp add: list_all2_conv_all_nth)
  from gcpt_pair[OF assms(1) this] paths show ?thesis by simp
qed

theorem minimality_witness:
  "common_prefix_paths [treeC, treeD] = {[1, 0]} \<and>
   get_common_prefix_transforms [treeC, treeD]
     = Inr [get_pruning_transform treeC {[1, 0]}, get_pruning_transform treeD {[1, 0]}]"
proof -
  have s: "tree_structure_with_implicit treeC = tree_structure_with_implicit treeD"
    by code_simp
  let ?x = "ImplicitArray 0 m3 [ImplicitArray 1 m3 [Arr m3 0], Arr m3 5]"
  let ?y = "ImplicitArray 0 m3 [ImplicitArray 2 m3 [Arr m3 0, Arr m3 1], Arr m3 5]"
  have lx: "tree_leaves_with_implicit treeC = [Arr m3 0, ?x]"
    and ly: "tree_leaves_with_implicit treeD = [Arr m3 0, ?y]"
    by (simp_all add: treeC_def treeD_def wrapped_simps)
  have fx: "fst (flatten_one_implicit_layer ?x) = [ImplicitArray 1 m3 [Arr m3 0], Arr m3 5]"
    and fy: "fst (flatten_one_implicit_layer ?y) = [ImplicitArray 2 m3 [Arr m3 0, Arr m3 1], Arr m3 5]"
    by (simp_all add: flatten_one_Implicit_fst is_leaf_below_node_def)
  have sxy: "snd (flatten_one_implicit_layer ?x) = snd (flatten_one_implicit_layer ?y)"
    by code_simp
  have inner: "snd (flatten_one_implicit_layer (ImplicitArray 1 m3 [Arr m3 0]))
                 \<noteq> snd (flatten_one_implicit_layer (ImplicitArray 2 m3 [Arr m3 0, Arr m3 1]))"
    by code_simp
  have d0: "differs_at [0] (fst (flatten_one_implicit_layer ?x)) (fst (flatten_one_implicit_layer ?y))"
    unfolding fx fy by (rule differs_at.here) (use inner in \<open>simp_all add: less_Suc_eq\<close>)
  have d: "differs_at [1, 0] (tree_leaves_with_implicit treeC) (tree_leaves_with_implicit treeD)"
    unfolding lx ly by (rule differs_at.below) (use sxy d0 in \<open>simp_all add: less_Suc_eq\<close>)
  show ?thesis by (rule minimality[OF s d])
qed

section \<open>The structure check\<close>

text \<open>
  C6, as the claim states it, fails: the ValueError of line 142 has a constant message and
  carries no index. With the disagreeing tree at index 1 and with it at index 2 the fault
  is the same value. And when the disagreeing tree comes after one whose leaf metadata
  differs from tree 0's, the fault is the metadata fault of the earlier tree.
\<close>

theorem structure_fault_counterexample:
  "get_common_prefix_transforms [tree1, tree2, tree1] = Inl ValueError_structure \<and>
   get_common_prefix_transforms [tree1, tree1, tree2] = Inl ValueError_structure \<and>
   get_common_prefix_transforms [tree1, Node PyList [Arr (ShapedArray [3] ''float64'') 0], tree2]
     = Inl (ValueError_avals m3 1 (ShapedArray [3] ''float64''))"
  by (simp add: get_common_prefix_transforms_def wrapped_simps tree1_def tree2_def m3_def)

text \<open>
  C6, amended: when the tree at index \<open>i \<ge> 1\<close> differs from tree 0 in its top-level
  structure (implicit arrays as leaves), and every tree before it agrees with tree 0 in
  structure and in the metadata of its leaves, \<^verbatim>\<open>get_common_prefix_transforms\<close> fails with
  the structure ValueError, a fault that carries no tree index.
\<close>

theorem structure_mismatch_fault:
  assumes "1 \<le> i" "i < length trees"
    and "tree_structure_with_implicit (trees ! i) \<noteq> tree_structure_with_implicit (trees ! 0)"
    and "\<forall>j. 1 \<le> j \<and> j < i \<longrightarrow>
           tree_structure_with_implicit (trees ! j) = tree_structure_with_implicit (trees ! 0) \<and>
           map get_aval (tree_leaves_with_implicit (trees ! j))
             = map get_aval (tree_leaves_with_implicit (trees ! 0))"
  shows "get_common_prefix_transforms trees = Inl ValueError_structure"
  using assms by (rule structure_mismatch_raises)

theorem structure_mismatch_fault_witness:
  "get_common_prefix_transforms [tree1, tree1, tree2] = Inl ValueError_structure"
proof -
  have h1: "(1::nat) \<le> 2" "(2::nat) < length [tree1, tree1, tree2]" by simp_all
  have h2: "tree_structure_with_implicit ([tree1, tree1, tree2] ! 2)
              \<noteq> tree_structure_with_implicit ([tree1, tree1, tree2] ! 0)"
    by (simp add: wrapped_simps tree1_def tree2_def)
  have h3: "\<forall>j. 1 \<le> j \<and> j < 2 \<longrightarrow>
           tree_structure_with_implicit ([tree1, tree1, tree2] ! j)
             = tree_structure_with_implicit ([tree1, tree1, tree2] ! 0) \<and>
           map get_aval (tree_leaves_with_implicit ([tree1, tree1, tree2] ! j))
             = map get_aval (tree_leaves_with_implicit ([tree1, tree1, tree2] ! 0))"
  proof (intro allI impI)
    fix j :: nat assume "1 \<le> j \<and> j < 2"
    then have "j = 1" by simp
    then show "tree_structure_with_implicit ([tree1, tree1, tree2] ! j)
             = tree_structure_with_implicit ([tree1, tree1, tree2] ! 0) \<and>
           map get_aval (tree_leaves_with_implicit ([tree1, tree1, tree2] ! j))
             = map get_aval (tree_leaves_with_implicit ([tree1, tree1, tree2] ! 0))"
      by simp
  qed
  show ?thesis by (rule structure_mismatch_fault[OF h1 h2 h3])
qed

section \<open>Order independence of the work set\<close>

text \<open>
  C3: the set of materialization paths does not depend on the order in which the work set
  is processed. The loop of the code takes the last entry (a stack). A first-in first-out
  queue ends with the same set, and so does every run that takes the entries in any order
  until the work set is empty.
\<close>

theorem work_set_order_independent:
  "traverse_queue (stack, mp) = traverse (stack, mp) \<and>
   (\<forall>M'. work_step\<^sup>*\<^sup>* (mset stack, mp) ({#}, M') \<longrightarrow> M' = traverse (stack, mp))"
  using any_order_result[of stack mp]
  by (simp add: traverse_queue_entry_paths traverse_entry_paths)

theorem work_set_order_independent_witness:
  "work_step\<^sup>*\<^sup>* (mset (initial_stack [treeA, treeB]), {}) ({#}, {[0], [1]}) \<and>
   {[0], [1]} = traverse (initial_stack [treeA, treeB], {}) \<and>
   traverse_queue (initial_stack [treeA, treeB], {}) = traverse (initial_stack [treeA, treeB], {})"
proof -
  let ?e0 = "([0::nat], [ImplicitArray 0 m3 [Arr m3 0], ImplicitArray 0 m3 [Arr m3 0, Arr m3 1]])"
  let ?e1 = "([1::nat], [ImplicitArray 0 m3 [Arr m3 0], ImplicitArray 1 m3 [Arr m3 0]])"
  have s: "initial_stack [treeA, treeB] = [?e0, ?e1]" by code_simp
  have p0: "spec_process ?e0 = ([], {[0]})" by code_simp
  have p1: "spec_process ?e1 = ([], {[1]})" by code_simp
  have "work_step ({#?e0, ?e1#}, {}) ({#?e0, ?e1#} - {#?e0#} + mset (fst (spec_process ?e0)),
          {} \<union> snd (spec_process ?e0))"
    by (rule work_step.take) simp
  then have a: "work_step ({#?e0, ?e1#}, {}) ({#?e1#}, {[0]})" unfolding p0 by simp
  have "work_step ({#?e1#}, {[0]}) ({#?e1#} - {#?e1#} + mset (fst (spec_process ?e1)),
          {[0]} \<union> snd (spec_process ?e1))"
    by (rule work_step.take) simp
  then have b: "work_step ({#?e1#}, {[0]}) ({#}, {[0], [1]})" unfolding p1 by (simp add: insert_commute)
  have run: "work_step\<^sup>*\<^sup>* (mset (initial_stack [treeA, treeB]), {}) ({#}, {[0], [1]})"
    unfolding s using a b by (simp add: add_mset_commute)
  show ?thesis
    using work_set_order_independent[of "initial_stack [treeA, treeB]" "{}"] run by simp
qed

section \<open>Materialization happens only when a transform is applied\<close>

text \<open>
  C10: \<^verbatim>\<open>get_common_prefix_transforms\<close> takes the trees only; the materialization step of
  the nodes is no input of it and it cannot call it. The step is an argument of the
  transforms it returns: when one of them is applied to a tree and returns, every call it
  made to \<^verbatim>\<open>_materialize\<close> was made at a path of the set \<^verbatim>\<open>materialization_paths\<close> that the
  reconciliation recorded.
\<close>

theorem materialize_only_at_recorded_paths:
  assumes "get_common_prefix_transforms trees = Inr ts"
    and "t \<in> set ts"
    and "t mat x = Some (x', calls)"
  shows "set calls \<subseteq> common_prefix_paths trees"
proof -
  from gcpt_transforms[OF assms(1,2)] show ?thesis
  proof
    assume "t = identity_transform"
    with assms(3) show ?thesis by (simp add: identity_transform_def)
  next
    assume "\<exists>t0. t = get_pruning_transform t0 (common_prefix_paths trees)"
    then obtain t0 where t0: "t = get_pruning_transform t0 (common_prefix_paths trees)" ..
    from assms(3) show ?thesis unfolding t0 by (rule transform_calls)
  qed
qed

theorem materialize_only_at_recorded_paths_witness:
  "get_pruning_transform treeA {[0], [1]} mat7 treeA
     = Some (Node PyList [Arr m3 7, Arr m3 7], [[0], [1]]) \<and>
   set [[0], [1]] \<subseteq> common_prefix_paths [treeA, treeB]"
proof -
  have h2: "get_pruning_transform treeA {[0], [1]}
              \<in> set [get_pruning_transform treeA {[0], [1]}, get_pruning_transform treeB {[0], [1]}]"
    by simp
  from materialize_only_at_recorded_paths[where t = "get_pruning_transform treeA {[0], [1]}"
      and mat = mat7 and x = treeA, OF example_gcpt h2 example_apply] example_apply
  show ?thesis by simp
qed

section \<open>Laziness is preserved outside the materialized frontier\<close>

text \<open>
  C5: let the materialization step of the nodes yield an array or an implicit array, and
  reach an array after finitely many steps, and let no path of the set be a proper prefix
  of another. Then the transform built by \<^verbatim>\<open>_get_pruning_transform\<close> returns, and for every
  node \<open>n\<close> at a path \<open>p\<close> of the input tree: if \<open>p\<close> is neither at, nor below, nor above a
  recorded path, the node at \<open>p\<close> in the result is \<open>n\<close> itself, unexpanded; if \<open>p\<close> is neither
  at nor below a recorded path, the node at \<open>p\<close> in the result is of the same kind as \<open>n\<close>
  (an implicit array stays one), with the same metadata and one-layer descriptor; and if
  \<open>p\<close> is a recorded path, the node at \<open>p\<close> in the result is the concrete array that the
  materialization loop makes of \<open>n\<close>.
\<close>

theorem laziness_preserved:
  assumes "\<forall>n. is_implicit n \<longrightarrow> \<not> is_container (mat n)"
    and "\<forall>n. \<exists>k. \<not> is_implicit ((mat ^^ k) n)"
    and "\<forall>p \<in> paths. \<forall>q \<in> paths. prefix q p \<longrightarrow> q = p"
  shows "\<exists>x' calls. get_pruning_transform t paths mat x = Some (x', calls) \<and>
    (\<forall>p n. node_at (tree_leaves_with_implicit x) p = Some n \<longrightarrow>
       ((\<forall>q \<in> paths. \<not> prefix q p \<and> \<not> prefix p q) \<longrightarrow>
          node_at (tree_leaves_with_implicit x') p = Some n) \<and>
       ((\<forall>q \<in> paths. \<not> prefix q p) \<longrightarrow>
          (\<exists>n'. node_at (tree_leaves_with_implicit x') p = Some n' \<and>
                is_implicit n' = is_implicit n \<and> get_aval n' = get_aval n \<and>
                snd (flatten_one_implicit_layer n') = snd (flatten_one_implicit_layer n))) \<and>
       (p \<in> paths \<longrightarrow>
          (\<exists>c cs. materialize_f mat p n = Some (c, cs) \<and>
                 node_at (tree_leaves_with_implicit x') p = Some c \<and>
                 \<not> is_implicit c \<and> \<not> is_container c)))"
proof -
  from transform_nodes[OF assms(1,2), of t paths x] obtain x' calls where
    app: "get_pruning_transform t paths mat x = Some (x', calls)"
    and nodes: "\<And>p n. node_at (tree_leaves_with_implicit x) p = Some n \<Longrightarrow>
                  pruned_node mat paths p n (node_at (tree_leaves_with_implicit x') p)"
    by blast
  have "((\<forall>q \<in> paths. \<not> prefix q p \<and> \<not> prefix p q) \<longrightarrow>
          node_at (tree_leaves_with_implicit x') p = Some n) \<and>
       ((\<forall>q \<in> paths. \<not> prefix q p) \<longrightarrow>
          (\<exists>n'. node_at (tree_leaves_with_implicit x') p = Some n' \<and>
                is_implicit n' = is_implicit n \<and> get_aval n' = get_aval n \<and>
                snd (flatten_one_implicit_layer n') = snd (flatten_one_implicit_layer n))) \<and>
       (p \<in> paths \<longrightarrow>
          (\<exists>c cs. materialize_f mat p n = Some (c, cs) \<and>
                 node_at (tree_leaves_with_implicit x') p = Some c \<and>
                 \<not> is_implicit c \<and> \<not> is_container c))"
    if n: "node_at (tree_leaves_with_implicit x) p = Some n" for p n
  proof -
    note pn = nodes[OF n, unfolded pruned_node_def]
    have nc: "\<not> is_container n"
    proof (rule node_at_not_container[OF n])
      show "\<forall>l \<in> set (tree_leaves_with_implicit x). \<not> is_container l"
        unfolding wrapped_simps using leaves_not_container by blast
    qed
    have b: "\<exists>c cs. materialize_f mat p n = Some (c, cs) \<and>
                 node_at (tree_leaves_with_implicit x') p = Some c \<and>
                 \<not> is_implicit c \<and> \<not> is_container c" if p: "p \<in> paths"
    proof -
      from assms(3) p have "\<forall>q \<in> paths. prefix q p \<longrightarrow> q = p" by blast
      with pn p obtain c cs where c: "materialize_f mat p n = Some (c, cs)"
        "node_at (tree_leaves_with_implicit x') p = Some c" by blast
      note r = materialize_f_result[OF c(1)]
      from r have "\<not> is_implicit c" by simp
      moreover from r[THEN conjunct2, THEN conjunct2, THEN conjunct2, THEN mp, OF assms(1), THEN mp, OF nc]
      have "\<not> is_container c" by simp
      ultimately show ?thesis using c by blast
    qed
    from pn b show ?thesis by blast
  qed
  with app show ?thesis by blast
qed

theorem laziness_preserved_witness:
  "\<exists>x' calls. get_pruning_transform treeC {[1, 0]} mat7 treeC = Some (x', calls) \<and>
     node_at (tree_leaves_with_implicit x') [0] = Some (Arr m3 0) \<and>
     (\<exists>c cs. materialize_f mat7 [1, 0] (ImplicitArray 1 m3 [Arr m3 0]) = Some (c, cs) \<and>
            node_at (tree_leaves_with_implicit x') [1, 0] = Some c \<and>
            \<not> is_implicit c \<and> \<not> is_container c)"
proof -
  have h3: "\<forall>p \<in> {[1, 0::nat]}. \<forall>q \<in> {[1, 0]}. prefix q p \<longrightarrow> q = p" by simp
  from laziness_preserved[OF mat7_leaf mat7_terminates h3, of treeC treeC] obtain x' calls where
    app: "get_pruning_transform treeC {[1, 0]} mat7 treeC = Some (x', calls)"
    and nodes: "\<forall>p n. node_at (tree_leaves_with_implicit treeC) p = Some n \<longrightarrow>
       ((\<forall>q \<in> {[1, 0]}. \<not> prefix q p \<and> \<not> prefix p q) \<longrightarrow>
          node_at (tree_leaves_with_implicit x') p = Some n) \<and>
       ((\<forall>q \<in> {[1, 0]}. \<not> prefix q p) \<longrightarrow>
          (\<exists>n'. node_at (tree_leaves_with_implicit x') p = Some n' \<and>
                is_implicit n' = is_implicit n \<and> get_aval n' = get_aval n \<and>
                snd (flatten_one_implicit_layer n') = snd (flatten_one_implicit_layer n))) \<and>
       (p \<in> {[1, 0]} \<longrightarrow>
          (\<exists>c cs. materialize_f mat7 p n = Some (c, cs) \<and>
                 node_at (tree_leaves_with_implicit x') p = Some c \<and>
                 \<not> is_implicit c \<and> \<not> is_container c))"
    by blast
  from nodes[rule_format, OF example_node_0]
  have a: "node_at (tree_leaves_with_implicit x') [0] = Some (Arr m3 0)" by simp
  from nodes[rule_format, OF example_node_10]
  have b: "\<exists>c cs. materialize_f mat7 [1, 0] (ImplicitArray 1 m3 [Arr m3 0]) = Some (c, cs) \<and>
            node_at (tree_leaves_with_implicit x') [1, 0] = Some c \<and>
            \<not> is_implicit c \<and> \<not> is_container c" by simp
  from app a b show ?thesis by blast
qed

end
